theory Spec2Isabelle
  imports Main "HOL-Library.Word"
begin

unbundle bit_operations_syntax

section \<open>The MuseTalk gatekeeper (nodes/MuseTalkNode.py)\<close>

text \<open>
  The server is an asyncio program: one event loop runs the request handlers and the
  background tasks, and a task gives up control only at an \<^verbatim>\<open>await\<close>. The model below
  is a step function on a record of the process state; one step is the code a task runs
  between two suspension points. Every \<^verbatim>\<open>await\<close> of the source is taken as a point where
  other tasks may run, which allows every interleaving the event loop can produce.
\<close>

subsection \<open>Python values and exceptions\<close>

text \<open>
  The values of a decoded JSON body. Numbers are integers here: the tuning values of a
  job are forwarded to the backend and never inspected.
\<close>

datatype pyval =
    PNone
  | PBool bool
  | PInt int
  | PStr string
  | PList "pyval list"
  | PDict "(string \<times> pyval) list"

type_synonym pydict = "(string \<times> pyval) list"

text \<open>An exception (a subclass of \<^verbatim>\<open>Exception\<close>): its class name and \<^verbatim>\<open>str(e)\<close>.\<close>

datatype exn = Exn string string

fun str_exn :: "exn \<Rightarrow> string" where
  "str_exn (Exn c m) = m"

definition hexdigit :: "nat \<Rightarrow> char" where
  "hexdigit n = ''0123456789abcdef'' ! n"

text \<open>
  \<^verbatim>\<open>repr\<close> of a string, as it appears in the text of a \<^verbatim>\<open>KeyError\<close> and of an
  \<^verbatim>\<open>OSError\<close>: double quotes if the string has a single quote and no double quote,
  single quotes otherwise; the backslash and the chosen quote are escaped, and so are the
  ASCII control characters. A string is its UTF-8 bytes here; the bytes of characters
  beyond ASCII are left as they are, as \<^verbatim>\<open>repr\<close> leaves printable characters.
\<close>

definition repr_char :: "char \<Rightarrow> char \<Rightarrow> string" where
  "repr_char q c =
     (if c = CHR 0x5C then [CHR 0x5C, CHR 0x5C]
      else if c = q then [CHR 0x5C, q]
      else if c = CHR 0x0A then [CHR 0x5C, CHR ''n'']
      else if c = CHR 0x0D then [CHR 0x5C, CHR ''r'']
      else if c = CHR 0x09 then [CHR 0x5C, CHR ''t'']
      else if (of_char c :: nat) < 32 \<or> (of_char c :: nat) = 127
        then [CHR 0x5C, CHR ''x'', hexdigit ((of_char c :: nat) div 16),
              hexdigit ((of_char c :: nat) mod 16)]
      else [c])"

definition py_repr :: "string \<Rightarrow> string" where
  "py_repr k =
     (let q = (if CHR 0x27 \<in> set k \<and> CHR 0x22 \<notin> set k then CHR 0x22 else CHR 0x27)
      in [q] @ concat (map (repr_char q) k) @ [q])"

definition key_error :: "string \<Rightarrow> exn" where
  "key_error k = Exn ''KeyError'' (py_repr k)"

fun type_name :: "pyval \<Rightarrow> string" where
  "type_name PNone = ''NoneType''"
| "type_name (PBool b) = ''bool''"
| "type_name (PInt n) = ''int''"
| "type_name (PStr s) = ''str''"
| "type_name (PList l) = ''list''"
| "type_name (PDict d) = ''dict''"

text \<open>\<^verbatim>\<open>d[k]\<close> on a dict: the value, or KeyError.\<close>

definition getitem :: "pydict \<Rightarrow> string \<Rightarrow> exn + pyval" where
  "getitem d k = (case map_of d k of None \<Rightarrow> Inl (key_error k) | Some v \<Rightarrow> Inr v)"

text \<open>\<^verbatim>\<open>result[0]\<close> on the tuple the backend returns.\<close>

definition first_item :: "pyval list \<Rightarrow> exn + pyval" where
  "first_item result =
     (case result of
        [] \<Rightarrow> Inl (Exn ''IndexError'' ''tuple index out of range'')
      | x # _ \<Rightarrow> Inr x)"

text \<open>\<^verbatim>\<open>info.get('video')\<close>: None for a missing key, AttributeError off a dict.\<close>

definition dict_get :: "pyval \<Rightarrow> string \<Rightarrow> exn + pyval" where
  "dict_get info k =
     (case info of
        PDict d \<Rightarrow> (case map_of d k of None \<Rightarrow> Inr PNone | Some v \<Rightarrow> Inr v)
      | _ \<Rightarrow> Inl (Exn ''AttributeError''
                 (py_repr (type_name info) @ '' object has no attribute '' @ py_repr ''get'')))"

fun truthy :: "pyval \<Rightarrow> bool" where
  "truthy PNone = False"
| "truthy (PBool b) = b"
| "truthy (PInt n) = (n \<noteq> 0)"
| "truthy (PStr s) = (s \<noteq> [])"
| "truthy (PList l) = (l \<noteq> [])"
| "truthy (PDict d) = (d \<noteq> [])"

text \<open>\<^verbatim>\<open>os.path.basename\<close> (posixpath): what follows the last slash.\<close>

definition basename :: "string \<Rightarrow> string" where
  "basename p = rev (takeWhile (\<lambda>c. c \<noteq> CHR ''/'') (rev p))"

subsection \<open>Job handles: \<^verbatim>\<open>str(uuid.uuid4())\<close>\<close>

text \<open>
  \<^verbatim>\<open>uuid4()\<close> reads 16 bytes from \<^verbatim>\<open>os.urandom\<close>, takes them as a 128-bit integer,
  overwrites the two variant bits (63, 62) with 10 and the four version bits (79..76)
  with 0100. \<^verbatim>\<open>str\<close> prints the 32 hexadecimal digits in groups of 8-4-4-4-12. The 16
  random bytes are an input of the model.
\<close>

type_synonym u128 = "128 word"

definition uuid4 :: "u128 \<Rightarrow> u128" where
  "uuid4 r =
     (((r AND NOT (push_bit 48 0xc000)) OR push_bit 48 0x8000)
        AND NOT (push_bit 64 0xf000)) OR push_bit 76 4"

definition nibble :: "u128 \<Rightarrow> nat \<Rightarrow> nat" where
  "nibble w i = unat (take_bit 4 (drop_bit (4 * i) w))"

definition hex32 :: "u128 \<Rightarrow> string" where
  "hex32 w = map (\<lambda>i. hexdigit (nibble w i)) (rev [0..<32])"

definition str_uuid :: "u128 \<Rightarrow> string" where
  "str_uuid w =
     (let h = hex32 w in
      take 8 h @ ''-'' @ take 4 (drop 8 h) @ ''-'' @ take 4 (drop 12 h) @ ''-''
        @ take 4 (drop 16 h) @ ''-'' @ drop 20 h)"


text \<open>The 122 bits of the random bytes that \<^verbatim>\<open>uuid4\<close> keeps, and the six it sets.\<close>

definition random_bits :: u128 where
  "random_bits = NOT (push_bit 48 0xc000 OR push_bit 64 0xf000)"

definition fixed_bits :: u128 where
  "fixed_bits = push_bit 48 0x8000 OR push_bit 76 4"

subsection \<open>The process state\<close>

text \<open>What the source prints, one constructor for each \<^verbatim>\<open>print\<close> call.\<close>

datatype logline =
    WS_CONN string
  | WS_DCONN string
  | WS_SEND string
  | WS_SEND_ERROR string exn
  | INFERENCE_START
  | INFERENCE_OK "pyval list"
  | OUTPUT_MOVED pyval
  | INFERENCE_ERROR exn
  | JOB_RECEIVED string pydict
  | LOCK_ACQUIRED string
  | JOB_ERROR string exn
  | LOCK_RELEASED string

text \<open>
  Where a \<^verbatim>\<open>process_job\<close> task stands: created by \<^verbatim>\<open>create_task\<close> and not yet run;
  suspended in the acquisition of \<^verbatim>\<open>processing_lock\<close>; granted the lock and not yet
  resumed; inside \<^verbatim>\<open>await run_musetalk_inference\<close> with the lock held; past the
  \<^verbatim>\<open>async with\<close> block with \<^verbatim>\<open>final_result\<close> built, before
  \<^verbatim>\<open>await manager.send_result\<close>; returned.
\<close>

datatype status =
    Scheduled
  | Waiting
  | Granted
  | Running
  | Sending pydict
  | Finished pydict

text \<open>
  A task of \<^verbatim>\<open>process_job(job_id, job_params)\<close>. The field \<open>outcome\<close> is a history
  variable: what the call of \<^verbatim>\<open>run_musetalk_inference\<close> returned or raised.
\<close>

record task =
  job_id :: string
  job_params :: pydict
  status :: status
  outcome :: "(exn + pyval) option"

text \<open>
  Modelled from the spec: \<^verbatim>\<open>asyncio.Lock\<close> is the standard library's and not part of
  the repository. Section 4.1 gives its contract: the gate is held or free and has a FIFO
  wait set; \<open>acquire\<close> grants the hold when no holder exists and suspends the caller
  otherwise; \<open>release\<close> transfers the hold to the next waiter in arrival order, or marks
  the gate free if no waiter exists.
\<close>

record gate =
  locked :: bool
  waiters :: "nat list"

text \<open>
  Modelled from the spec: \<^verbatim>\<open>acquire\<close> of the lock (section 4.1), called by task
  \<open>i\<close>. The result says whether the hold was granted at once; if not, the caller is
  appended to the wait set.
\<close>

definition acquire :: "nat \<Rightarrow> gate \<Rightarrow> bool \<times> gate" where
  "acquire i g =
     (if locked g then (False, g\<lparr>waiters := waiters g @ [i]\<rparr>)
      else (True, g\<lparr>locked := True\<rparr>))"

text \<open>
  Modelled from the spec: \<^verbatim>\<open>release\<close> of the lock (section 4.1). The result is the
  waiter that the hold was transferred to, if there was one.
\<close>

definition release :: "gate \<Rightarrow> nat option \<times> gate" where
  "release g =
     (case waiters g of
        [] \<Rightarrow> (None, g\<lparr>locked := False\<rparr>)
      | w # ws \<Rightarrow> (Some w, g\<lparr>waiters := ws\<rparr>))"

text \<open>
  A WebSocket of the \<^verbatim>\<open>/ws/{job_id}\<close> endpoint: the handle in its path, whether the
  peer still holds it open, and whether its handler is still in the receive loop.
\<close>

record websocket =
  ws_job_id :: string
  ws_open :: bool
  ws_listening :: bool

text \<open>
  The state of the process and of what it acts on. \<open>tasks\<close> are the background tasks
  in creation order, a task is named by its index; \<open>sent\<close> is what went out over the
  WebSockets, in order, as (socket, payload); \<open>files\<close> is the file system, a path
  holding an artifact. \<open>sent_by\<close> and \<open>arrivals\<close> are history variables: the task
  that sent each message of \<open>sent\<close>, and the tasks in the order they reached the lock
  acquisition.
\<close>

record server =
  tasks :: "task list"
  processing_lock :: gate
  active_connections :: "string \<rightharpoonup> nat"
  sockets :: "websocket list"
  sent :: "(nat \<times> pydict) list"
  files :: "string \<rightharpoonup> nat"
  stdout :: "logline list"
  sent_by :: "nat list"
  arrivals :: "nat list"

definition init :: "(string \<rightharpoonup> nat) \<Rightarrow> server" where
  "init fs =
     \<lparr>tasks = [], processing_lock = \<lparr>locked = False, waiters = []\<rparr>,
      active_connections = Map.empty, sockets = [], sent = [], files = fs,
      stdout = [], sent_by = [], arrivals = []\<rparr>"

definition print :: "logline \<Rightarrow> server \<Rightarrow> server" where
  "print l s = s\<lparr>stdout := stdout s @ [l]\<rparr>"

text \<open>
  What a job's backend call meets outside the process: whether the Gradio client
  connects, what \<^verbatim>\<open>handle_file\<close> and \<^verbatim>\<open>predict\<close> return or raise, and whether the
  operating system refuses the rename of an existing file.
\<close>

record env =
  client_init :: "exn option"
  handle_file :: "pyval \<Rightarrow> exn + pyval"
  predict :: "pydict \<Rightarrow> exn + pyval list"
  rename_fault :: "string \<Rightarrow> string \<Rightarrow> exn option"


subsection \<open>ConnectionManager\<close>

text \<open>
  \<^verbatim>\<open>connect\<close>: accept the WebSocket and store it under the handle, over whatever was
  there. The accept changes nothing in this state, so it is one step with the store.
\<close>

definition connect :: "string \<Rightarrow> nat \<Rightarrow> server \<Rightarrow> server" where
  "connect jid w s =
     print (WS_CONN jid) (s\<lparr>active_connections := (active_connections s)(jid \<mapsto> w)\<rparr>)"

definition disconnect :: "string \<Rightarrow> server \<Rightarrow> server" where
  "disconnect jid s =
     (if jid \<in> dom (active_connections s)
      then print (WS_DCONN jid) (s\<lparr>active_connections := (active_connections s)(jid := None)\<rparr>)
      else s)"

text \<open>
  \<^verbatim>\<open>websocket.send_json\<close>: the message goes out when the peer holds the socket open and
  the transport does not fail (\<open>tx\<close> is the transport's error, if any); it raises
  otherwise. On a socket that the peer has closed the framework raises
  \<^verbatim>\<open>WebSocketDisconnect\<close>, whose text is empty.
\<close>

definition closed_error :: exn where
  "closed_error = Exn ''WebSocketDisconnect'' []"

definition send_json :: "nat \<Rightarrow> pydict \<Rightarrow> exn option \<Rightarrow> server \<Rightarrow> (exn + unit) \<times> server" where
  "send_json w data tx s =
     (case tx of
        Some e \<Rightarrow> (Inl e, s)
      | None \<Rightarrow>
          if w < length (sockets s) \<and> ws_open (sockets s ! w)
          then (Inr (), s\<lparr>sent := sent s @ [(w, data)]\<rparr>)
          else (Inl closed_error, s))"

text \<open>
  \<^verbatim>\<open>send_result\<close>: nothing without a registration; otherwise one \<^verbatim>\<open>send_json\<close> inside
  \<^verbatim>\<open>try\<close>, whose exception is printed and dropped. The first component is how the
  call ends: \<open>Inr ()\<close> for a return, \<open>Inl e\<close> for an exception that leaves it.
\<close>

definition send_result :: "string \<Rightarrow> pydict \<Rightarrow> exn option \<Rightarrow> server \<Rightarrow> (exn + unit) \<times> server" where
  "send_result jid data tx s =
     (case active_connections s jid of
        None \<Rightarrow> (Inr (), s)
      | Some w \<Rightarrow>
          (case send_json w data tx (print (WS_SEND jid) s) of
             (Inl e, s') \<Rightarrow> (Inr (), print (WS_SEND_ERROR jid e) s')
           | (Inr u, s') \<Rightarrow> (Inr (), s')))"

subsection \<open>run_musetalk_inference\<close>

text \<open>Sequencing of steps that may raise: the first exception ends the sequence.\<close>

definition and_then :: "exn + 'a \<Rightarrow> ('a \<Rightarrow> exn + 'b) \<Rightarrow> exn + 'b" where
  "and_then x f = (case x of Inl e \<Rightarrow> Inl e | Inr v \<Rightarrow> f v)"

text \<open>
  The keyword arguments of \<^verbatim>\<open>client.predict\<close>, evaluated left to right; the first
  missing key or failing \<^verbatim>\<open>handle_file\<close> raises.
\<close>

definition predict_kwargs :: "env \<Rightarrow> pydict \<Rightarrow> exn + pydict" where
  "predict_kwargs env p =
     and_then (getitem p ''audio_path'') (\<lambda>a.
     and_then (handle_file env a) (\<lambda>audio.
     and_then (getitem p ''video_path'') (\<lambda>v.
     and_then (handle_file env v) (\<lambda>video.
     and_then (getitem p ''bbox_shift'') (\<lambda>bbox.
     and_then (getitem p ''extra_margin'') (\<lambda>margin.
     and_then (getitem p ''parsing_mode'') (\<lambda>mode.
     and_then (getitem p ''left_cheek_width'') (\<lambda>left.
     and_then (getitem p ''right_cheek_width'') (\<lambda>right.
        Inr [(''audio_path'', audio), (''video_path'', PDict [(''video'', video)]),
             (''bbox_shift'', bbox), (''extra_margin'', margin), (''parsing_mode'', mode),
             (''left_cheek_width'', left), (''right_cheek_width'', right),
             (''api_name'', PStr ''/inference'')])))))))))"

text \<open>
  \<^verbatim>\<open>os.rename(src, dst)\<close>: both arguments must be strings; the source must exist and the
  operating system must allow the move; then the artifact is at \<open>dst\<close> and no longer at
  \<open>src\<close>.
\<close>

definition rename_type_error :: "string \<Rightarrow> pyval \<Rightarrow> exn" where
  "rename_type_error arg v =
     Exn ''TypeError''
       (''rename: '' @ arg @ '' should be string, bytes or os.PathLike, not '' @ type_name v)"

definition file_not_found :: "string \<Rightarrow> string \<Rightarrow> exn" where
  "file_not_found a b =
     Exn ''FileNotFoundError''
       (''[Errno 2] No such file or directory: '' @ py_repr a @ '' -> '' @ py_repr b)"

definition os_rename :: "env \<Rightarrow> pyval \<Rightarrow> pyval \<Rightarrow> server \<Rightarrow> (exn + unit) \<times> server" where
  "os_rename env src dst s =
     (case src of
        PStr a \<Rightarrow>
          (case dst of
             PStr b \<Rightarrow>
               (case files s a of
                  None \<Rightarrow> (Inl (file_not_found a b), s)
                | Some c \<Rightarrow>
                    (case rename_fault env a b of
                       Some e \<Rightarrow> (Inl e, s)
                     | None \<Rightarrow> (Inr (), s\<lparr>files := (files s)(a := None, b \<mapsto> c)\<rparr>)))
           | _ \<Rightarrow> (Inl (rename_type_error ''dst'' dst), s))
      | _ \<Rightarrow> (Inl (rename_type_error ''src'' src), s))"

definition no_video :: exn where
  "no_video = Exn ''ValueError'' ''Inference did not return a video file path.''"

text \<open>
  \<^verbatim>\<open>result[0].get('video')\<close> and the check that follows: the temporary path of the
  artifact, or the exception raised on the way.
\<close>

definition temp_path :: "pyval list \<Rightarrow> exn + pyval" where
  "temp_path result =
     and_then (first_item result) (\<lambda>output_video_info.
     and_then (dict_get output_video_info ''video'') (\<lambda>temp_output_path.
       if \<not> truthy temp_output_path then Inl no_video else Inr temp_output_path))"

text \<open>The move of the artifact to \<^verbatim>\<open>job_params["output_file_path"]\<close>.\<close>

definition relocate :: "env \<Rightarrow> pydict \<Rightarrow> pyval \<Rightarrow> server \<Rightarrow> (exn + pyval) \<times> server" where
  "relocate env p temp_output_path s =
     (case getitem p ''output_file_path'' of
        Inl e \<Rightarrow> (Inl e, s)
      | Inr final_output_path \<Rightarrow>
          (case os_rename env temp_output_path final_output_path s of
             (Inl e, s') \<Rightarrow> (Inl e, s')
           | (Inr u, s') \<Rightarrow>
               (Inr final_output_path, print (OUTPUT_MOVED final_output_path) s')))"

text \<open>The body of the \<^verbatim>\<open>try\<close> block, after the first \<^verbatim>\<open>print\<close>.\<close>

definition inference_body :: "env \<Rightarrow> pydict \<Rightarrow> server \<Rightarrow> (exn + pyval) \<times> server" where
  "inference_body env p s =
     (case client_init env of
        Some e \<Rightarrow> (Inl e, s)
      | None \<Rightarrow>
          (case and_then (predict_kwargs env p) (predict env) of
             Inl e \<Rightarrow> (Inl e, s)
           | Inr result \<Rightarrow>
               (case temp_path result of
                  Inl e \<Rightarrow> (Inl e, print (INFERENCE_OK result) s)
                | Inr temp_output_path \<Rightarrow>
                    relocate env p temp_output_path (print (INFERENCE_OK result) s))))"

text \<open>The \<^verbatim>\<open>except\<close> clause prints the exception and raises it again.\<close>

definition run_musetalk_inference :: "env \<Rightarrow> pydict \<Rightarrow> server \<Rightarrow> (exn + pyval) \<times> server" where
  "run_musetalk_inference env p s =
     (case inference_body env p (print INFERENCE_START s) of
        (Inl e, s') \<Rightarrow> (Inl e, print (INFERENCE_ERROR e) s')
      | (Inr path, s') \<Rightarrow> (Inr path, s'))"


subsection \<open>execute_workflow\<close>

text \<open>
  The handler of \<^verbatim>\<open>POST /execute\<close>, given the decoded body and the 16 bytes that
  \<^verbatim>\<open>uuid4\<close> reads: it creates the task and returns the response. The task does not run
  before the handler has returned.
\<close>

definition execute_workflow :: "pydict \<Rightarrow> u128 \<Rightarrow> server \<Rightarrow> pydict \<times> server" where
  "execute_workflow p r s =
     (let jid = str_uuid (uuid4 r);
          s1 = print (JOB_RECEIVED jid p) s;
          s2 = s1\<lparr>tasks := tasks s1 @
                 [\<lparr>job_id = jid, job_params = p, status = Scheduled, outcome = None\<rparr>]\<rparr>
      in ([(''status'', PStr ''success''), (''job_id'', PStr jid)], s2))"

subsection \<open>process_job\<close>

definition set_status :: "nat \<Rightarrow> status \<Rightarrow> server \<Rightarrow> server" where
  "set_status i st s = s\<lparr>tasks := (tasks s)[i := (tasks s ! i)\<lparr>status := st\<rparr>]\<rparr>"

text \<open>With the lock held: the \<^verbatim>\<open>print\<close>, then the backend call begins.\<close>

definition enter :: "nat \<Rightarrow> server \<Rightarrow> server" where
  "enter i s = set_status i Running (print (LOCK_ACQUIRED (job_id (tasks s ! i))) s)"

text \<open>
  The first run of the task, up to the lock: it goes on into the block if the lock is
  granted at once and is suspended otherwise.
\<close>

definition process_job_begin :: "nat \<Rightarrow> server \<Rightarrow> server" where
  "process_job_begin i s =
     (case acquire i (processing_lock s) of
        (True, g) \<Rightarrow> enter i (s\<lparr>processing_lock := g, arrivals := arrivals s @ [i]\<rparr>)
      | (False, g) \<Rightarrow>
          set_status i Waiting (s\<lparr>processing_lock := g, arrivals := arrivals s @ [i]\<rparr>))"

text \<open>A waiter that was granted the lock runs again.\<close>

definition process_job_resume :: "nat \<Rightarrow> server \<Rightarrow> server" where
  "process_job_resume i s = enter i s"

definition py_basename :: "pyval \<Rightarrow> exn + string" where
  "py_basename v =
     (case v of
        PStr p \<Rightarrow> Inr (basename p)
      | _ \<Rightarrow> Inl (Exn ''TypeError''
                 (''expected str, bytes or os.PathLike object, not '' @ type_name v)))"

text \<open>The body of the \<^verbatim>\<open>async with\<close> block from the backend call on.\<close>

definition job_body :: "env \<Rightarrow> pydict \<Rightarrow> server \<Rightarrow> (exn + pydict) \<times> server" where
  "job_body env p s =
     (case run_musetalk_inference env p s of
        (Inl e, s1) \<Rightarrow> (Inl e, s1)
      | (Inr output_path, s1) \<Rightarrow>
          (case py_basename output_path of
             Inl e \<Rightarrow> (Inl e, s1)
           | Inr name \<Rightarrow>
               (Inr [(''format'', PStr ''filePath''), (''data'', output_path),
                     (''filename'', PStr name)], s1)))"

text \<open>Leaving the \<^verbatim>\<open>async with\<close> block releases the lock, on a return and on an exception.\<close>

definition unlock :: "server \<Rightarrow> server" where
  "unlock s =
     (case release (processing_lock s) of
        (None, g) \<Rightarrow> s\<lparr>processing_lock := g\<rparr>
      | (Some w, g) \<Rightarrow> set_status w Granted (s\<lparr>processing_lock := g\<rparr>))"

definition error_result :: "exn \<Rightarrow> pydict" where
  "error_result e = [(''format'', PStr ''error''), (''error'', PStr (str_exn e))]"

text \<open>
  The \<^verbatim>\<open>finally\<close> clause up to the call of \<^verbatim>\<open>send_result\<close>; \<open>r\<close> is what
  the backend call had returned or raised, kept for the record.
\<close>

definition before_send :: "nat \<Rightarrow> exn + pyval \<Rightarrow> pydict \<Rightarrow> server \<Rightarrow> server" where
  "before_send i r final_result s =
     (let s' = print (LOCK_RELEASED (job_id (tasks s ! i))) s
      in s'\<lparr>tasks := (tasks s')[i := (tasks s' ! i)
                \<lparr>status := Sending final_result, outcome := Some r\<rparr>]\<rparr>)"

text \<open>
  The backend call of task \<open>i\<close> comes back: the rest of the block, the release, the
  \<^verbatim>\<open>except\<close> clause if the block raised, and the \<^verbatim>\<open>finally\<close> clause up to the send.
\<close>

definition process_job_finish :: "nat \<Rightarrow> env \<Rightarrow> server \<Rightarrow> server" where
  "process_job_finish i env s =
     (case job_body env (job_params (tasks s ! i)) s of
        (Inr final_result, s1) \<Rightarrow>
          before_send i (fst (run_musetalk_inference env (job_params (tasks s ! i)) s))
            final_result (unlock s1)
      | (Inl e, s1) \<Rightarrow>
          before_send i (fst (run_musetalk_inference env (job_params (tasks s ! i)) s))
            (error_result e) (print (JOB_ERROR (job_id (tasks s ! i)) e) (unlock s1)))"

text \<open>
  \<^verbatim>\<open>await manager.send_result(job_id, final_result)\<close>, the last statement: the task
  returns, or ends with the exception that \<^verbatim>\<open>send_result\<close> lets out.
\<close>

datatype ending = Returned | Crashed exn

definition process_job_notify :: "nat \<Rightarrow> pydict \<Rightarrow> exn option \<Rightarrow> server \<Rightarrow> ending \<times> server" where
  "process_job_notify i final_result tx s =
     (case send_result (job_id (tasks s ! i)) final_result tx s of
        (Inl e, s1) \<Rightarrow> (Crashed e, s1)
      | (Inr u, s1) \<Rightarrow>
          (Returned,
           set_status i (Finished final_result)
             (s1\<lparr>sent_by := sent_by s @ replicate (length (sent s1) - length (sent s)) i\<rparr>)))"

subsection \<open>websocket_endpoint\<close>

text \<open>
  A client opens \<^verbatim>\<open>/ws/{job_id}\<close>: the handler registers the new socket and stays in
  its receive loop. When the peer has closed, \<^verbatim>\<open>receive_text\<close> raises
  \<^verbatim>\<open>WebSocketDisconnect\<close> and the handler calls \<^verbatim>\<open>manager.disconnect(job_id)\<close> with
  the handle of its own path.
\<close>

definition websocket_endpoint :: "string \<Rightarrow> server \<Rightarrow> server" where
  "websocket_endpoint jid s =
     connect jid (length (sockets s))
       (s\<lparr>sockets := sockets s @ [\<lparr>ws_job_id = jid, ws_open = True, ws_listening = True\<rparr>]\<rparr>)"

definition peer_close :: "nat \<Rightarrow> server \<Rightarrow> server" where
  "peer_close w s = s\<lparr>sockets := (sockets s)[w := (sockets s ! w)\<lparr>ws_open := False\<rparr>]\<rparr>"

definition websocket_disconnected :: "nat \<Rightarrow> server \<Rightarrow> server" where
  "websocket_disconnected w s =
     disconnect (ws_job_id (sockets s ! w))
       (s\<lparr>sockets := (sockets s)[w := (sockets s ! w)\<lparr>ws_listening := False\<rparr>]\<rparr>)"

subsection \<open>The event loop\<close>

text \<open>
  What can happen next: a request arrives, the loop runs a task that is ready, a backend
  call comes back, a peer closes its socket. \<open>step\<close> is \<open>None\<close> for an event that
  cannot happen in the state, and for a task that ended with an exception.
\<close>

datatype event =
    Execute pydict u128
  | Start nat
  | Resume nat
  | BackendReturn nat env
  | Notify nat "exn option"
  | WsOpen string
  | WsPeerClose nat
  | WsDisconnect nat

fun step :: "event \<Rightarrow> server \<Rightarrow> server option" where
  "step (Execute p r) s = Some (snd (execute_workflow p r s))"
| "step (Start i) s =
     (if i < length (tasks s) \<and> status (tasks s ! i) = Scheduled
      then Some (process_job_begin i s) else None)"
| "step (Resume i) s =
     (if i < length (tasks s) \<and> status (tasks s ! i) = Granted
      then Some (process_job_resume i s) else None)"
| "step (BackendReturn i env) s =
     (if i < length (tasks s) \<and> status (tasks s ! i) = Running
      then Some (process_job_finish i env s) else None)"
| "step (Notify i tx) s =
     (if i < length (tasks s)
      then (case status (tasks s ! i) of
              Sending final_result \<Rightarrow>
                (case process_job_notify i final_result tx s of
                   (Returned, s') \<Rightarrow> Some s'
                 | (Crashed e, s') \<Rightarrow> None)
            | _ \<Rightarrow> None)
      else None)"
| "step (WsOpen jid) s = Some (websocket_endpoint jid s)"
| "step (WsPeerClose w) s =
     (if w < length (sockets s) \<and> ws_open (sockets s ! w)
      then Some (peer_close w s) else None)"
| "step (WsDisconnect w) s =
     (if w < length (sockets s) \<and> \<not> ws_open (sockets s ! w) \<and> ws_listening (sockets s ! w)
      then Some (websocket_disconnected w s) else None)"

fun exec :: "event list \<Rightarrow> server \<Rightarrow> server option" where
  "exec [] s = Some s"
| "exec (e # es) s = (case step e s of None \<Rightarrow> None | Some s' \<Rightarrow> exec es s')"


text \<open>
  The tasks of a run in the order in which they reached the lock acquisition: the order
  of their first steps.
\<close>

fun gate_order :: "event list \<Rightarrow> nat list" where
  "gate_order [] = []"
| "gate_order (Start i # es) = i # gate_order es"
| "gate_order (e # es) = gate_order es"

text \<open>The random bytes that the admissions of a run consumed, in order.\<close>

fun draws :: "event list \<Rightarrow> u128 list" where
  "draws [] = []"
| "draws (Execute p r # es) = r # draws es"
| "draws (e # es) = draws es"

subsection \<open>Invariants of the event loop\<close>

text \<open>
  A task holds the lock from the grant to the end of the block; its backend call has
  started once it is running, and is over once the task is past the block.
\<close>

definition holds_lock :: "status \<Rightarrow> bool" where
  "holds_lock x = (x = Granted \<or> x = Running)"

definition past_block :: "status \<Rightarrow> bool" where
  "past_block x = (case x of Sending fr \<Rightarrow> True | Finished fr \<Rightarrow> True | _ \<Rightarrow> False)"

definition started :: "status \<Rightarrow> bool" where
  "started x = (x = Running \<or> past_block x)"

definition status_of :: "server \<Rightarrow> nat \<Rightarrow> status" where
  "status_of s i = status (tasks s ! i)"

text \<open>
  The lock and the tasks agree: at most one task holds the lock, and one does exactly
  when the lock is held; a free lock has no waiters; the wait queue lists, once each,
  exactly the tasks suspended in the acquisition.
\<close>

definition gate_inv :: "server \<Rightarrow> bool" where
  "gate_inv s =
     ((\<forall>i < length (tasks s). \<forall>j < length (tasks s).
          holds_lock (status_of s i) \<longrightarrow> holds_lock (status_of s j) \<longrightarrow> i = j)
      \<and> (locked (processing_lock s) \<longleftrightarrow> (\<exists>i < length (tasks s). holds_lock (status_of s i)))
      \<and> (\<not> locked (processing_lock s) \<longrightarrow> waiters (processing_lock s) = [])
      \<and> distinct (waiters (processing_lock s))
      \<and> (\<forall>i. i \<in> set (waiters (processing_lock s))
              \<longleftrightarrow> i < length (tasks s) \<and> status_of s i = Waiting))"

text \<open>
  The arrivals are the tasks that got the lock, in the order they got it, followed by
  the wait queue; of those that got the lock all but the last are past the block.
\<close>

definition fifo_inv :: "server \<Rightarrow> bool" where
  "fifo_inv s =
     (\<exists>pre. arrivals s = pre @ waiters (processing_lock s)
        \<and> (\<forall>x \<in> set pre. x < length (tasks s) \<and> status_of s x \<noteq> Scheduled \<and> status_of s x \<noteq> Waiting)
        \<and> (\<forall>x \<in> set (butlast pre). past_block (status_of s x))
        \<and> (\<forall>i < length (tasks s). status_of s i \<noteq> Scheduled \<longrightarrow> i \<in> set (arrivals s)))"

text \<open>The payload that \<^verbatim>\<open>process_job\<close> builds from what the block returned or raised.\<close>

definition result_of :: "exn + pydict \<Rightarrow> pydict" where
  "result_of r = (case r of Inl e \<Rightarrow> error_result e | Inr final_result \<Rightarrow> final_result)"

text \<open>
  A payload matches an outcome of the backend call: the error payload with the text of
  the exception for a call that raised, the file payload with the returned path and its
  base name for a call that returned.
\<close>

definition matches_outcome :: "(exn + pyval) option \<Rightarrow> pydict \<Rightarrow> bool" where
  "matches_outcome r fr =
     (case r of
        Some (Inl e) \<Rightarrow> fr = [(''format'', PStr ''error''), (''error'', PStr (str_exn e))]
      | Some (Inr (PStr final)) \<Rightarrow>
          fr = [(''format'', PStr ''filePath''), (''data'', PStr final),
                (''filename'', PStr (basename final))]
      | _ \<Rightarrow> False)"

text \<open>
  Every message that went out was sent by a task that has returned, is the payload of
  that task, and no task sent two; the payload of a task past the block matches its
  recorded outcome.
\<close>

definition delivery_inv :: "server \<Rightarrow> bool" where
  "delivery_inv s =
     (length (sent_by s) = length (sent s)
      \<and> distinct (sent_by s)
      \<and> (\<forall>k < length (sent s).
            sent_by s ! k < length (tasks s)
            \<and> status_of s (sent_by s ! k) = Finished (snd (sent s ! k)))
      \<and> (\<forall>i < length (tasks s). \<forall>fr.
            status_of s i = Sending fr \<or> status_of s i = Finished fr
            \<longrightarrow> matches_outcome (outcome (tasks s ! i)) fr))"

subsection \<open>States and runs used as examples\<close>

text \<open>A client has opened a socket for the handle \<open>h\<close> and has closed it again.\<close>

definition closed_channel :: server where
  "closed_channel = peer_close 0 (websocket_endpoint ''h'' (init Map.empty))"

text \<open>Two admissions with different random bytes, a client connecting in between.\<close>

definition two_admissions :: server where
  "two_admissions =
     snd (execute_workflow [] 2 (websocket_endpoint ''h''
       (snd (execute_workflow [] 1 (init Map.empty)))))"

text \<open>
  A complete parameter bundle, a backend that raises, a backend that returns an artifact,
  a disk that holds the artifact, and one admitted job whose backend call is in flight.
\<close>

definition full_bundle :: pydict where
  "full_bundle =
     [(''audio_path'', PStr ''/in/voice.wav''), (''video_path'', PStr ''/in/face.mp4''),
      (''bbox_shift'', PInt 0), (''extra_margin'', PInt 10), (''parsing_mode'', PStr ''jaw''),
      (''left_cheek_width'', PInt 90), (''right_cheek_width'', PInt 90),
      (''output_file_path'', PStr ''/out/final.mp4'')]"

definition backend_boom :: env where
  "backend_boom =
     \<lparr>client_init = None, handle_file = Inr,
      predict = (\<lambda>kwargs. Inl (Exn ''ValueError'' ''boom'')),
      rename_fault = (\<lambda>a b. None)\<rparr>"

definition backend_ok :: env where
  "backend_ok =
     \<lparr>client_init = None, handle_file = Inr,
      predict = (\<lambda>kwargs. Inr [PDict [(''video'', PStr ''/tmp/gradio/out.mp4'')]]),
      rename_fault = (\<lambda>a b. None)\<rparr>"

definition disk :: "string \<rightharpoonup> nat" where
  "disk = [''/tmp/gradio/out.mp4'' \<mapsto> 7]"

definition one_running :: server where
  "one_running = process_job_begin 0 (snd (execute_workflow full_bundle 0 (init disk)))"

text \<open>Two admitted jobs: the first in its backend call, the second waiting for the lock.\<close>

definition two_jobs :: server where
  "two_jobs =
     process_job_begin 1 (process_job_begin 0
       (snd (execute_workflow full_bundle 2 (snd (execute_workflow full_bundle 1 (init disk))))))"

text \<open>Then the first job fails, and the second is resumed.\<close>

definition second_running :: server where
  "second_running = process_job_resume 1 (process_job_finish 0 backend_boom two_jobs)"

text \<open>
  One admitted job in its backend call, with a client listening on its handle; then the
  backend call back with an artifact, or back with an exception, the result not yet sent.
\<close>

definition listening_running :: server where
  "listening_running =
     process_job_begin 0
       (websocket_endpoint (str_uuid (uuid4 1))
          (snd (execute_workflow full_bundle 1 (init disk))))"

definition ready_to_send :: server where
  "ready_to_send = process_job_finish 0 backend_ok listening_running"

definition failed_ready_to_send :: server where
  "failed_ready_to_send = process_job_finish 0 backend_boom listening_running"

section \<open>Properties\<close>

subsection \<open>What printing leaves alone\<close>

lemma print_fields [simp]:
  "tasks (print l s) = tasks s"
  "processing_lock (print l s) = processing_lock s"
  "active_connections (print l s) = active_connections s"
  "sockets (print l s) = sockets s"
  "sent (print l s) = sent s"
  "files (print l s) = files s"
  "sent_by (print l s) = sent_by s"
  "arrivals (print l s) = arrivals s"
  "stdout (print l s) = stdout s @ [l]"
  by (simp_all add: print_def)

subsection \<open>What each operation leaves alone\<close>

lemma job_ids_set_status: "map job_id (tasks (set_status i st s)) = map job_id (tasks s)"
  by (cases "i < length (tasks s)") (simp_all add: set_status_def map_update list_update_same_conv list_update_beyond)

lemma job_ids_unlock: "map job_id (tasks (unlock s)) = map job_id (tasks s)"
  by (simp add: unlock_def release_def job_ids_set_status split: list.splits)

lemma os_rename_frame:
  "os_rename env a b s = (r, s') \<Longrightarrow>
     tasks s' = tasks s \<and> processing_lock s' = processing_lock s
     \<and> active_connections s' = active_connections s \<and> sockets s' = sockets s
     \<and> sent s' = sent s \<and> sent_by s' = sent_by s \<and> arrivals s' = arrivals s"
  by (auto simp: os_rename_def split: pyval.splits option.splits)

lemma relocate_frame:
  "relocate env p t s = (r, s') \<Longrightarrow>
     tasks s' = tasks s \<and> processing_lock s' = processing_lock s
     \<and> active_connections s' = active_connections s \<and> sockets s' = sockets s
     \<and> sent s' = sent s \<and> sent_by s' = sent_by s \<and> arrivals s' = arrivals s"
  by (auto simp: relocate_def split: sum.splits prod.splits dest: os_rename_frame)

lemma inference_body_frame:
  "inference_body env p s = (r, s') \<Longrightarrow>
     tasks s' = tasks s \<and> processing_lock s' = processing_lock s
     \<and> active_connections s' = active_connections s \<and> sockets s' = sockets s
     \<and> sent s' = sent s \<and> sent_by s' = sent_by s \<and> arrivals s' = arrivals s"
  by (auto simp: inference_body_def split: sum.splits option.splits dest: relocate_frame)

lemma run_musetalk_inference_frame:
  "run_musetalk_inference env p s = (r, s') \<Longrightarrow>
     tasks s' = tasks s \<and> processing_lock s' = processing_lock s
     \<and> active_connections s' = active_connections s \<and> sockets s' = sockets s
     \<and> sent s' = sent s \<and> sent_by s' = sent_by s \<and> arrivals s' = arrivals s"
  by (auto simp: run_musetalk_inference_def split: sum.splits prod.splits
      dest: inference_body_frame)

lemma job_body_frame:
  "job_body env p s = (r, s') \<Longrightarrow>
     tasks s' = tasks s \<and> processing_lock s' = processing_lock s
     \<and> active_connections s' = active_connections s \<and> sockets s' = sockets s
     \<and> sent s' = sent s \<and> sent_by s' = sent_by s \<and> arrivals s' = arrivals s"
  by (auto simp: job_body_def split: sum.splits prod.splits
      dest: run_musetalk_inference_frame)

lemma send_result_frame:
  "send_result jid data tx s = (r, s') \<Longrightarrow>
     tasks s' = tasks s \<and> processing_lock s' = processing_lock s
     \<and> active_connections s' = active_connections s \<and> sockets s' = sockets s
     \<and> files s' = files s \<and> sent_by s' = sent_by s \<and> arrivals s' = arrivals s"
  by (auto simp: send_result_def send_json_def split: option.splits if_splits)

lemma length_tasks_set_status [simp]: "length (tasks (set_status i st s)) = length (tasks s)"
  by (simp add: set_status_def)

lemma length_tasks_unlock [simp]: "length (tasks (unlock s)) = length (tasks s)"
  by (simp add: unlock_def release_def split: list.splits)

lemma unlock_fields [simp]:
  "active_connections (unlock s) = active_connections s"
  "sockets (unlock s) = sockets s"
  "sent (unlock s) = sent s"
  "files (unlock s) = files s"
  "sent_by (unlock s) = sent_by s"
  "arrivals (unlock s) = arrivals s"
  "stdout (unlock s) = stdout s"
  by (simp_all add: unlock_def release_def set_status_def split: list.splits)

lemma before_send_fields [simp]:
  "processing_lock (before_send i r fr s) = processing_lock s"
  "active_connections (before_send i r fr s) = active_connections s"
  "sockets (before_send i r fr s) = sockets s"
  "sent (before_send i r fr s) = sent s"
  "files (before_send i r fr s) = files s"
  "sent_by (before_send i r fr s) = sent_by s"
  "arrivals (before_send i r fr s) = arrivals s"
  "length (tasks (before_send i r fr s)) = length (tasks s)"
  by (simp_all add: before_send_def Let_def)

lemma before_send_task:
  "i < length (tasks s) \<Longrightarrow>
     status (tasks (before_send i r fr s) ! i) = Sending fr
     \<and> outcome (tasks (before_send i r fr s) ! i) = Some r
     \<and> job_id (tasks (before_send i r fr s) ! i) = job_id (tasks s ! i)"
  by (simp add: before_send_def Let_def)

lemma notify_returns:
  assumes "i < length (tasks s)" and "status (tasks s ! i) = Sending fr"
  shows "\<exists>s'. step (Notify i tx) s = Some s' \<and> status (tasks s' ! i) = Finished fr"
proof -
  obtain r s1 where a: "send_result (job_id (tasks s ! i)) fr tx s = (r, s1)"
    by (cases "send_result (job_id (tasks s ! i)) fr tx s")
  have "fst (send_result (job_id (tasks s ! i)) fr tx s) = Inr ()"
    by (auto simp: send_result_def split: option.splits prod.splits sum.splits)
  with a have r: "r = Inr ()" by simp
  from send_result_frame [OF a] have "tasks s1 = tasks s" by simp
  with assms a r show ?thesis
    by (simp add: process_job_notify_def set_status_def)
qed

subsection \<open>The effect of each event\<close>

lemma step_Execute:
  assumes "step (Execute p r) s = Some s'"
  shows "length (tasks s') = Suc (length (tasks s))"
    and "\<And>j. j < length (tasks s) \<Longrightarrow> tasks s' ! j = tasks s ! j"
    and "status_of s' (length (tasks s)) = Scheduled"
    and "processing_lock s' = processing_lock s" and "arrivals s' = arrivals s"
    and "sent s' = sent s" and "sent_by s' = sent_by s"
  using assms by (auto simp: execute_workflow_def Let_def status_of_def nth_append)

lemma step_Start:
  assumes "step (Start i) s = Some s'"
  shows "i < length (tasks s)" and "status_of s i = Scheduled"
    and "length (tasks s') = length (tasks s)"
    and "\<And>j. j \<noteq> i \<Longrightarrow> tasks s' ! j = tasks s ! j"
    and "status_of s' i = (if locked (processing_lock s) then Waiting else Running)"
    and "outcome (tasks s' ! i) = outcome (tasks s ! i)"
    and "locked (processing_lock s')"
    and "waiters (processing_lock s')
          = (if locked (processing_lock s) then waiters (processing_lock s) @ [i]
             else waiters (processing_lock s))"
    and "arrivals s' = arrivals s @ [i]"
    and "sent s' = sent s" and "sent_by s' = sent_by s"
  using assms
  by (auto simp: process_job_begin_def acquire_def enter_def set_status_def status_of_def
      split: if_splits)

lemma step_Resume:
  assumes "step (Resume i) s = Some s'"
  shows "i < length (tasks s)" and "status_of s i = Granted"
    and "length (tasks s') = length (tasks s)"
    and "\<And>j. j \<noteq> i \<Longrightarrow> tasks s' ! j = tasks s ! j"
    and "status_of s' i = Running"
    and "outcome (tasks s' ! i) = outcome (tasks s ! i)"
    and "processing_lock s' = processing_lock s" and "arrivals s' = arrivals s"
    and "sent s' = sent s" and "sent_by s' = sent_by s"
  using assms
  by (auto simp: process_job_resume_def enter_def set_status_def status_of_def split: if_splits)


lemma unlock_effect:
  "processing_lock (unlock s)
     = (case waiters (processing_lock s) of
          [] \<Rightarrow> (processing_lock s)\<lparr>locked := False\<rparr>
        | w # ws \<Rightarrow> (processing_lock s)\<lparr>waiters := ws\<rparr>)"
  "j < length (tasks s) \<Longrightarrow>
     tasks (unlock s) ! j
       = (case waiters (processing_lock s) of
            [] \<Rightarrow> tasks s ! j
          | w # ws \<Rightarrow> if j = w then (tasks s ! j)\<lparr>status := Granted\<rparr> else tasks s ! j)"
  by (simp_all add: unlock_def release_def set_status_def split: list.splits)

lemma step_BackendReturn:
  assumes "step (BackendReturn i env) s = Some s'"
  shows "i < length (tasks s)" and "status_of s i = Running"
    and "length (tasks s') = length (tasks s)"
    and "status_of s' i = Sending (result_of (fst (job_body env (job_params (tasks s ! i)) s)))
         \<and> outcome (tasks s' ! i)
             = Some (fst (run_musetalk_inference env (job_params (tasks s ! i)) s))"
    and "\<And>j. j \<noteq> i \<Longrightarrow> j < length (tasks s) \<Longrightarrow>
           tasks s' ! j
             = (case waiters (processing_lock s) of
                  [] \<Rightarrow> tasks s ! j
                | w # ws \<Rightarrow> if j = w then (tasks s ! j)\<lparr>status := Granted\<rparr> else tasks s ! j)"
    and "processing_lock s'
           = (case waiters (processing_lock s) of
                [] \<Rightarrow> (processing_lock s)\<lparr>locked := False\<rparr>
              | w # ws \<Rightarrow> (processing_lock s)\<lparr>waiters := ws\<rparr>)"
    and "arrivals s' = arrivals s" and "sent s' = sent s" and "sent_by s' = sent_by s"
proof -
  from assms show i: "i < length (tasks s)" and "status_of s i = Running"
    by (auto simp: status_of_def split: if_splits)
  obtain r s1 where a: "job_body env (job_params (tasks s ! i)) s = (r, s1)"
    by (cases "job_body env (job_params (tasks s ! i)) s")
  note fr = job_body_frame [OF a]
  define t where "t = (case r of Inl e \<Rightarrow> print (JOB_ERROR (job_id (tasks s ! i)) e) (unlock s1)
                        | Inr x \<Rightarrow> unlock s1)"
  have s': "s' = before_send i (fst (run_musetalk_inference env (job_params (tasks s ! i)) s))
                  (result_of r) t"
    using assms a by (auto simp: process_job_finish_def result_of_def t_def
        split: if_splits sum.splits)
  have t: "tasks t = tasks (unlock s1)" "processing_lock t = processing_lock (unlock s1)"
    "arrivals t = arrivals s1" "sent t = sent s1" "sent_by t = sent_by s1"
    by (simp_all add: t_def split: sum.splits)
  show "length (tasks s') = length (tasks s)" by (simp add: s' t fr)
  have "i < length (tasks t)" using i by (simp add: t fr)
  then show "status_of s' i = Sending (result_of (fst (job_body env (job_params (tasks s ! i)) s)))
         \<and> outcome (tasks s' ! i)
             = Some (fst (run_musetalk_inference env (job_params (tasks s ! i)) s))"
    unfolding s' status_of_def a using before_send_task by simp
  show "processing_lock s'
           = (case waiters (processing_lock s) of
                [] \<Rightarrow> (processing_lock s)\<lparr>locked := False\<rparr>
              | w # ws \<Rightarrow> (processing_lock s)\<lparr>waiters := ws\<rparr>)"
    by (simp add: s' t unlock_effect fr split: list.splits)
  show "arrivals s' = arrivals s" "sent s' = sent s" "sent_by s' = sent_by s"
    by (simp_all add: s' t fr)
  fix j
  assume "j \<noteq> i" "j < length (tasks s)"
  then show "tasks s' ! j
             = (case waiters (processing_lock s) of
                  [] \<Rightarrow> tasks s ! j
                | w # ws \<Rightarrow> if j = w then (tasks s ! j)\<lparr>status := Granted\<rparr> else tasks s ! j)"
    by (simp add: s' before_send_def Let_def t unlock_effect fr split: list.splits)
qed

lemma step_Notify:
  assumes "step (Notify i tx) s = Some s'"
  shows "i < length (tasks s)" and "\<exists>fr. status_of s i = Sending fr \<and> status_of s' i = Finished fr
           \<and> (sent s' = sent s \<and> sent_by s' = sent_by s
               \<or> (\<exists>w. sent s' = sent s @ [(w, fr)] \<and> sent_by s' = sent_by s @ [i]))"
    and "length (tasks s') = length (tasks s)"
    and "\<And>j. j \<noteq> i \<Longrightarrow> tasks s' ! j = tasks s ! j"
    and "outcome (tasks s' ! i) = outcome (tasks s ! i)"
    and "processing_lock s' = processing_lock s" and "arrivals s' = arrivals s"
proof -
  from assms show i: "i < length (tasks s)" by (auto split: if_splits)
  from assms i obtain fr where f: "status (tasks s ! i) = Sending fr"
    by (cases "status (tasks s ! i)") auto
  obtain r s1 where a: "send_result (job_id (tasks s ! i)) fr tx s = (r, s1)"
    by (cases "send_result (job_id (tasks s ! i)) fr tx s")
  note fr = send_result_frame [OF a]
  have s': "s' = set_status i (Finished fr)
             (s1\<lparr>sent_by := sent_by s @ replicate (length (sent s1) - length (sent s)) i\<rparr>)"
    using assms i f a by (auto simp: process_job_notify_def split: sum.splits)
  have "sent s1 = sent s \<or> (\<exists>w. sent s1 = sent s @ [(w, fr)])"
    using a by (auto simp: send_result_def send_json_def split: option.splits if_splits)
  then show "\<exists>fr. status_of s i = Sending fr \<and> status_of s' i = Finished fr
           \<and> (sent s' = sent s \<and> sent_by s' = sent_by s
               \<or> (\<exists>w. sent s' = sent s @ [(w, fr)] \<and> sent_by s' = sent_by s @ [i]))"
    using f i fr by (auto simp: s' set_status_def status_of_def)
  show "length (tasks s') = length (tasks s)" "outcome (tasks s' ! i) = outcome (tasks s ! i)"
    "processing_lock s' = processing_lock s" "arrivals s' = arrivals s"
    using i fr by (simp_all add: s' set_status_def)
  fix j assume "j \<noteq> i"
  then show "tasks s' ! j = tasks s ! j" using fr by (simp add: s' set_status_def)
qed

lemma step_Ws:
  assumes "step e s = Some s'" and "e = WsOpen jid \<or> e = WsPeerClose w \<or> e = WsDisconnect w"
  shows "tasks s' = tasks s" and "processing_lock s' = processing_lock s"
    and "arrivals s' = arrivals s" and "sent s' = sent s" and "sent_by s' = sent_by s"
  using assms
  by (auto simp: websocket_endpoint_def connect_def peer_close_def websocket_disconnected_def
      disconnect_def split: if_splits)

subsection \<open>The lock and the tasks agree\<close>

lemma gate_invI:
  assumes "\<And>i j. i < length (tasks s) \<Longrightarrow> j < length (tasks s) \<Longrightarrow>
             holds_lock (status_of s i) \<Longrightarrow> holds_lock (status_of s j) \<Longrightarrow> i = j"
    and "locked (processing_lock s) \<longleftrightarrow> (\<exists>i < length (tasks s). holds_lock (status_of s i))"
    and "\<not> locked (processing_lock s) \<Longrightarrow> waiters (processing_lock s) = []"
    and "distinct (waiters (processing_lock s))"
    and "\<And>i. i \<in> set (waiters (processing_lock s))
              \<longleftrightarrow> i < length (tasks s) \<and> status_of s i = Waiting"
  shows "gate_inv s"
  using assms unfolding gate_inv_def by blast

lemma gate_invD:
  assumes "gate_inv s"
  shows "i < length (tasks s) \<Longrightarrow> j < length (tasks s) \<Longrightarrow>
             holds_lock (status_of s i) \<Longrightarrow> holds_lock (status_of s j) \<Longrightarrow> i = j"
    and "locked (processing_lock s) \<longleftrightarrow> (\<exists>i < length (tasks s). holds_lock (status_of s i))"
    and "\<not> locked (processing_lock s) \<Longrightarrow> waiters (processing_lock s) = []"
    and "distinct (waiters (processing_lock s))"
    and "i \<in> set (waiters (processing_lock s))
              \<longleftrightarrow> i < length (tasks s) \<and> status_of s i = Waiting"
  using assms unfolding gate_inv_def by blast+

lemma gate_inv_Execute:
  assumes "gate_inv s" and "step (Execute p r) s = Some s'"
  shows "gate_inv s'"
proof (rule gate_invI)
  note e = step_Execute [OF assms(2)]
  note g = gate_invD [OF assms(1)]
  have a: "status_of s' j = (if j < length (tasks s) then status_of s j else Scheduled)"
    if "j < length (tasks s')" for j
    using that e(1) e(2) [of j] e(3) by (auto simp: status_of_def less_Suc_eq)
  have h: "holds_lock (status_of s' j) \<longleftrightarrow> j < length (tasks s) \<and> holds_lock (status_of s j)"
    if "j < length (tasks s')" for j
    using a [OF that] by (simp add: holds_lock_def)
  show "i = j" if "i < length (tasks s')" "j < length (tasks s')"
    "holds_lock (status_of s' i)" "holds_lock (status_of s' j)" for i j
    using that h g(1) by blast
  show "locked (processing_lock s') \<longleftrightarrow> (\<exists>i < length (tasks s'). holds_lock (status_of s' i))"
    using g(2) h e(1) by (metis e(4) less_Suc_eq)
  show "waiters (processing_lock s') = []" if "\<not> locked (processing_lock s')"
    using that g(3) by (simp add: e(4))
  show "distinct (waiters (processing_lock s'))" using g(4) by (simp add: e(4))
  show "i \<in> set (waiters (processing_lock s'))
          \<longleftrightarrow> i < length (tasks s') \<and> status_of s' i = Waiting" for i
    using g(5) [of i] a [of i] e(1) by (auto simp: e(4) less_Suc_eq)
qed


lemma gate_inv_Start:
  assumes "gate_inv s" and "step (Start i) s = Some s'"
  shows "gate_inv s'"
proof (rule gate_invI)
  note e = step_Start [OF assms(2)]
  note g = gate_invD [OF assms(1)]
  let ?L = "locked (processing_lock s)"
  have n: "length (tasks s') = length (tasks s)" by (rule e(3))
  have a: "status_of s' j = (if j = i then (if ?L then Waiting else Running) else status_of s j)"
    for j
    using e(4) [of j] e(5) by (auto simp: status_of_def)
  have i: "\<not> holds_lock (status_of s i)" "status_of s i \<noteq> Waiting"
    using e(2) by (simp_all add: holds_lock_def)
  have h: "holds_lock (status_of s' j) \<longleftrightarrow> (if j = i then \<not> ?L else holds_lock (status_of s j))"
    for j
    by (simp add: a holds_lock_def)
  have nw: "i \<notin> set (waiters (processing_lock s))" using g(5) [of i] i by simp
  show "x = y" if "x < length (tasks s')" "y < length (tasks s')"
    "holds_lock (status_of s' x) " "holds_lock (status_of s' y)" for x y
  proof (cases ?L)
    case True
    with that h have "x \<noteq> i" "y \<noteq> i" by auto
    with that h g(1) [of x y] n show ?thesis by simp
  next
    case False
    with g(2) have "\<not> holds_lock (status_of s z)" if "z < length (tasks s)" for z
      using that by blast
    with that h n have "x = i" "y = i" by (metis)+
    then show ?thesis by simp
  qed
  show "locked (processing_lock s') \<longleftrightarrow> (\<exists>z < length (tasks s'). holds_lock (status_of s' z))"
  proof (cases ?L)
    case True
    with g(2) obtain z where z: "z < length (tasks s)" "holds_lock (status_of s z)" by blast
    with i have "z \<noteq> i" by auto
    with z h n e(7) show ?thesis by auto
  next
    case False
    with h [of i] e(1) n e(7) show ?thesis by auto
  qed
  show "waiters (processing_lock s') = []" if "\<not> locked (processing_lock s')"
    using that e(7) by simp
  show "distinct (waiters (processing_lock s'))"
    using g(4) nw by (simp add: e(8))
  show "z \<in> set (waiters (processing_lock s'))
          \<longleftrightarrow> z < length (tasks s') \<and> status_of s' z = Waiting" for z
  proof (cases ?L)
    case True
    with g(5) [of z] e(1) show ?thesis by (auto simp: e(8) a n)
  next
    case False
    with g(3) g(5) [of z] e(1) i show ?thesis by (auto simp: e(8) a n)
  qed
qed

lemma gate_inv_Resume:
  assumes "gate_inv s" and "step (Resume i) s = Some s'"
  shows "gate_inv s'"
proof (rule gate_invI)
  note e = step_Resume [OF assms(2)]
  note g = gate_invD [OF assms(1)]
  have n: "length (tasks s') = length (tasks s)" by (rule e(3))
  have a: "status_of s' j = (if j = i then Running else status_of s j)" for j
    using e(4) [of j] e(5) by (auto simp: status_of_def)
  have h: "holds_lock (status_of s' j) \<longleftrightarrow> holds_lock (status_of s j)" for j
    using e(2) by (simp add: a holds_lock_def)
  have w: "status_of s' j = Waiting \<longleftrightarrow> status_of s j = Waiting" for j
    using e(2) by (simp add: a)
  show "x = y" if "x < length (tasks s')" "y < length (tasks s')"
    "holds_lock (status_of s' x) " "holds_lock (status_of s' y)" for x y
    using that g(1) [of x y] by (simp add: h n)
  show "locked (processing_lock s') \<longleftrightarrow> (\<exists>z < length (tasks s'). holds_lock (status_of s' z))"
    using g(2) by (simp add: h n e(7))
  show "waiters (processing_lock s') = []" if "\<not> locked (processing_lock s')"
    using that g(3) by (simp add: e(7))
  show "distinct (waiters (processing_lock s'))" using g(4) by (simp add: e(7))
  show "z \<in> set (waiters (processing_lock s'))
          \<longleftrightarrow> z < length (tasks s') \<and> status_of s' z = Waiting" for z
    using g(5) [of z] by (simp add: e(7) w n)
qed

lemma gate_inv_Notify:
  assumes "gate_inv s" and "step (Notify i tx) s = Some s'"
  shows "gate_inv s'"
proof (rule gate_invI)
  note e = step_Notify [OF assms(2)]
  note g = gate_invD [OF assms(1)]
  have n: "length (tasks s') = length (tasks s)" by (rule e(3))
  from e(2) obtain fr where f: "status_of s i = Sending fr" "status_of s' i = Finished fr"
    by blast
  have a: "status_of s' j = (if j = i then Finished fr else status_of s j)" for j
    using e(4) [of j] f by (auto simp: status_of_def)
  have h: "holds_lock (status_of s' j) \<longleftrightarrow> holds_lock (status_of s j)" for j
    using f by (simp add: a holds_lock_def)
  have w: "status_of s' j = Waiting \<longleftrightarrow> status_of s j = Waiting" for j
    using f by (simp add: a)
  show "x = y" if "x < length (tasks s')" "y < length (tasks s')"
    "holds_lock (status_of s' x) " "holds_lock (status_of s' y)" for x y
    using that g(1) [of x y] by (simp add: h n)
  show "locked (processing_lock s') \<longleftrightarrow> (\<exists>z < length (tasks s'). holds_lock (status_of s' z))"
    using g(2) by (simp add: h n e(6))
  show "waiters (processing_lock s') = []" if "\<not> locked (processing_lock s')"
    using that g(3) by (simp add: e(6))
  show "distinct (waiters (processing_lock s'))" using g(4) by (simp add: e(6))
  show "z \<in> set (waiters (processing_lock s'))
          \<longleftrightarrow> z < length (tasks s') \<and> status_of s' z = Waiting" for z
    using g(5) [of z] by (simp add: e(6) w n)
qed

lemma gate_inv_Ws:
  assumes "gate_inv s" and "step e s = Some s'"
    and "e = WsOpen jid \<or> e = WsPeerClose w \<or> e = WsDisconnect w"
  shows "gate_inv s'"
  using assms(1) step_Ws(1,2) [OF assms(2,3)] by (simp add: gate_inv_def status_of_def)

lemma BackendReturn_status:
  assumes "step (BackendReturn i env) s = Some s'" and "j \<noteq> i" and "j < length (tasks s)"
  shows "status_of s' j
           = (case waiters (processing_lock s) of
                [] \<Rightarrow> status_of s j
              | w # ws \<Rightarrow> if j = w then Granted else status_of s j)"
    and "outcome (tasks s' ! j) = outcome (tasks s ! j)"
  using step_BackendReturn(5) [OF assms] by (simp_all add: status_of_def split: list.splits)

lemma gate_inv_BackendReturn:
  assumes "gate_inv s" and "step (BackendReturn i env) s = Some s'"
  shows "gate_inv s'"
proof -
  note e = step_BackendReturn [OF assms(2)]
  note g = gate_invD [OF assms(1)]
  have n: "length (tasks s') = length (tasks s)" by (rule e(3))
  from e(4) obtain r where r: "status_of s' i = Sending (result_of r)" by blast
  have hi: "holds_lock (status_of s i)" using e(2) by (simp add: holds_lock_def)
  have others: "\<not> holds_lock (status_of s j)" if "j < length (tasks s)" "j \<noteq> i" for j
    using g(1) [OF that(1) e(1) _ hi] that(2) by blast
  have L: "locked (processing_lock s)" using g(2) e(1) hi by blast
  show ?thesis
  proof (cases "waiters (processing_lock s)")
    case Nil
    have a: "status_of s' j = (if j = i then Sending (result_of r) else status_of s j)"
      if "j < length (tasks s)" for j
      using BackendReturn_status(1) [OF assms(2) _ that] r Nil by (cases "j = i") simp_all
    have h: "\<not> holds_lock (status_of s' j)" if "j < length (tasks s)" for j
    proof (cases "j = i")
      case True
      with a [OF that] show ?thesis by (simp add: holds_lock_def)
    next
      case False
      with others [OF that] a [OF that] show ?thesis by simp
    qed
    have l: "processing_lock s' = (processing_lock s)\<lparr>locked := False\<rparr>"
      using e(6) Nil by simp
    show ?thesis
    proof (rule gate_invI)
      show "x = y" if "x < length (tasks s')" "y < length (tasks s')"
        "holds_lock (status_of s' x) " "holds_lock (status_of s' y)" for x y
        using that h n by simp
      show "locked (processing_lock s')
              \<longleftrightarrow> (\<exists>z < length (tasks s'). holds_lock (status_of s' z))"
        using h n by (simp add: l)
      show "waiters (processing_lock s') = []" if "\<not> locked (processing_lock s')"
        using Nil by (simp add: l)
      show "distinct (waiters (processing_lock s'))" using Nil by (simp add: l)
      show "z \<in> set (waiters (processing_lock s'))
              \<longleftrightarrow> z < length (tasks s') \<and> status_of s' z = Waiting" for z
        using g(5) [of z] Nil a [of z] e(2) by (auto simp: l n)
    qed
  next
    case (Cons w ws)
    have w: "w < length (tasks s)" "status_of s w = Waiting" "w \<notin> set ws" "distinct ws"
      using g(5) [of w] g(4) Cons by simp_all
    have wi: "w \<noteq> i" using w(2) e(2) by auto
    have a: "status_of s' j
               = (if j = i then Sending (result_of r) else if j = w then Granted else status_of s j)"
      if "j < length (tasks s)" for j
      using BackendReturn_status(1) [OF assms(2) _ that] r Cons by (cases "j = i") simp_all
    have h: "holds_lock (status_of s' j) \<longleftrightarrow> j = w" if "j < length (tasks s)" for j
    proof (cases "j = i")
      case True
      with a [OF that] wi show ?thesis by (auto simp: holds_lock_def)
    next
      case False
      with others [OF that] a [OF that] show ?thesis by (simp add: holds_lock_def)
    qed
    have l: "processing_lock s' = (processing_lock s)\<lparr>waiters := ws\<rparr>"
      using e(6) Cons by simp
    show ?thesis
    proof (rule gate_invI)
      show "x = y" if "x < length (tasks s')" "y < length (tasks s')"
        "holds_lock (status_of s' x) " "holds_lock (status_of s' y)" for x y
        using that h n by simp
      show "locked (processing_lock s')
              \<longleftrightarrow> (\<exists>z < length (tasks s'). holds_lock (status_of s' z))"
        using h [OF w(1)] w(1) L n by (auto simp: l)
      show "waiters (processing_lock s') = []" if "\<not> locked (processing_lock s')"
        using that L by (simp add: l)
      show "distinct (waiters (processing_lock s'))" using w(4) by (simp add: l)
      show "z \<in> set (waiters (processing_lock s'))
              \<longleftrightarrow> z < length (tasks s') \<and> status_of s' z = Waiting" for z
        using g(5) [of z] Cons a [of z] e(2) w(3) by (auto simp: l n split: if_splits)
    qed
  qed
qed

lemma gate_inv_step:
  assumes "gate_inv s" and "step e s = Some s'"
  shows "gate_inv s'"
proof (cases e)
  case (Execute p r)
  with assms show ?thesis using gate_inv_Execute by blast
next
  case (Start i)
  with assms show ?thesis using gate_inv_Start by blast
next
  case (Resume i)
  with assms show ?thesis using gate_inv_Resume by blast
next
  case (BackendReturn i env)
  with assms show ?thesis using gate_inv_BackendReturn by blast
next
  case (Notify i tx)
  with assms show ?thesis using gate_inv_Notify by blast
next
  case (WsOpen jid)
  with assms show ?thesis using gate_inv_Ws by blast
next
  case (WsPeerClose w)
  with assms show ?thesis using gate_inv_Ws by blast
next
  case (WsDisconnect w)
  with assms show ?thesis using gate_inv_Ws by blast
qed

lemma gate_inv_init: "gate_inv (init fs)"
  by (simp add: gate_inv_def init_def)

lemma exec_induct:
  assumes "P s" and "\<And>e t t'. P t \<Longrightarrow> step e t = Some t' \<Longrightarrow> P t'"
    and "exec es s = Some s'"
  shows "P s'"
  using assms(1,3)
proof (induction es arbitrary: s)
  case Nil
  then show ?case by simp
next
  case (Cons e es)
  from Cons.prems(2) obtain t where t: "step e s = Some t" "exec es t = Some s'"
    by (auto split: option.splits)
  from assms(2) [OF Cons.prems(1) t(1)] t(2) show ?case by (rule Cons.IH)
qed

lemma gate_inv_exec: "exec es (init fs) = Some s \<Longrightarrow> gate_inv s"
  by (rule exec_induct [where P = gate_inv, OF gate_inv_init gate_inv_step])

subsection \<open>The lock is granted in arrival order\<close>

lemma fifo_invI:
  assumes "arrivals s = pre @ waiters (processing_lock s)"
    and "\<And>x. x \<in> set pre \<Longrightarrow>
           x < length (tasks s) \<and> status_of s x \<noteq> Scheduled \<and> status_of s x \<noteq> Waiting"
    and "\<And>x. x \<in> set (butlast pre) \<Longrightarrow> past_block (status_of s x)"
    and "\<And>i. i < length (tasks s) \<Longrightarrow> status_of s i \<noteq> Scheduled \<Longrightarrow> i \<in> set (arrivals s)"
  shows "fifo_inv s"
  using assms unfolding fifo_inv_def by blast

lemma butlast_or_last: "x \<in> set xs \<Longrightarrow> x \<in> set (butlast xs) \<or> x = last xs"
  by (induction xs) auto

lemma past_block_simps [simp]:
  "\<not> past_block Scheduled" "\<not> past_block Waiting" "\<not> past_block Granted"
  "\<not> past_block Running" "past_block (Sending fr)" "past_block (Finished fr)"
  by (simp_all add: past_block_def)

lemma past_block_cases:
  "x \<noteq> Scheduled \<Longrightarrow> x \<noteq> Waiting \<Longrightarrow> \<not> holds_lock x \<Longrightarrow> past_block x"
  by (cases x) (simp_all add: holds_lock_def)

lemma fifo_inv_Execute:
  assumes "fifo_inv s" and "step (Execute p r) s = Some s'"
  shows "fifo_inv s'"
proof -
  note e = step_Execute [OF assms(2)]
  obtain pre where f: "arrivals s = pre @ waiters (processing_lock s)"
    "\<And>x. x \<in> set pre \<Longrightarrow>
       x < length (tasks s) \<and> status_of s x \<noteq> Scheduled \<and> status_of s x \<noteq> Waiting"
    "\<And>x. x \<in> set (butlast pre) \<Longrightarrow> past_block (status_of s x)"
    "\<And>i. i < length (tasks s) \<Longrightarrow> status_of s i \<noteq> Scheduled \<Longrightarrow> i \<in> set (arrivals s)"
    using assms unfolding fifo_inv_def by blast
  have a: "status_of s' j = status_of s j" if "j < length (tasks s)" for j
    using e(2) [OF that] by (simp add: status_of_def)
  show ?thesis
  proof (rule fifo_invI [where pre = pre])
    show "arrivals s' = pre @ waiters (processing_lock s')" using f(1) by (simp add: e(4,5))
    show "x < length (tasks s') \<and> status_of s' x \<noteq> Scheduled \<and> status_of s' x \<noteq> Waiting"
      if "x \<in> set pre" for x
      using f(2) [OF that] a [of x] by (simp add: e(1))
    show "past_block (status_of s' x)" if "x \<in> set (butlast pre)" for x
      using f(3) [OF that] f(2) [of x] that a [of x] by (auto dest: in_set_butlastD)
    show "i \<in> set (arrivals s')"
      if "i < length (tasks s')" "status_of s' i \<noteq> Scheduled" for i
    proof (cases "i < length (tasks s)")
      case True
      with that a [OF True] f(4) [of i] show ?thesis by (simp add: e(5))
    next
      case False
      with that(1) e(1) have "i = length (tasks s)" by simp
      with that(2) e(3) show ?thesis by simp
    qed
  qed
qed

lemma fifo_inv_Start:
  assumes "gate_inv s" and "fifo_inv s" and "step (Start i) s = Some s'"
  shows "fifo_inv s'"
proof -
  note e = step_Start [OF assms(3)]
  note g = gate_invD [OF assms(1)]
  obtain pre where f: "arrivals s = pre @ waiters (processing_lock s)"
    "\<And>x. x \<in> set pre \<Longrightarrow>
       x < length (tasks s) \<and> status_of s x \<noteq> Scheduled \<and> status_of s x \<noteq> Waiting"
    "\<And>x. x \<in> set (butlast pre) \<Longrightarrow> past_block (status_of s x)"
    "\<And>i. i < length (tasks s) \<Longrightarrow> status_of s i \<noteq> Scheduled \<Longrightarrow> i \<in> set (arrivals s)"
    using assms unfolding fifo_inv_def by blast
  let ?L = "locked (processing_lock s)"
  have n: "length (tasks s') = length (tasks s)" by (rule e(3))
  have a: "status_of s' j = status_of s j" if "j \<noteq> i" for j
    using e(4) [OF that] by (simp add: status_of_def)
  have ip: "x \<noteq> i" if "x \<in> set pre" for x
    using f(2) [OF that] e(2) by auto
  have c4: "j \<in> set (arrivals s')"
    if "j < length (tasks s')" "status_of s' j \<noteq> Scheduled" for j
  proof (cases "j = i")
    case True
    then show ?thesis by (simp add: e(9))
  next
    case False
    with that a [OF False] f(4) [of j] show ?thesis by (simp add: e(9) n)
  qed
  show ?thesis
  proof (cases ?L)
    case True
    show ?thesis
    proof (rule fifo_invI [where pre = pre])
      show "arrivals s' = pre @ waiters (processing_lock s')"
        using f(1) True by (simp add: e(8,9))
      show "x < length (tasks s') \<and> status_of s' x \<noteq> Scheduled \<and> status_of s' x \<noteq> Waiting"
        if "x \<in> set pre" for x
        using f(2) [OF that] a [OF ip [OF that]] by (simp add: n)
      show "past_block (status_of s' x)" if "x \<in> set (butlast pre)" for x
        using f(3) [OF that] a [OF ip [OF in_set_butlastD [OF that]]] by simp
    qed (rule c4)
  next
    case False
    with g(3) have w: "waiters (processing_lock s) = []" by simp
    have nh: "\<not> holds_lock (status_of s x)" if "x < length (tasks s)" for x
      using g(2) False that by blast
    have past: "past_block (status_of s x)" if "x \<in> set pre" for x
      using f(2) [OF that] nh [of x] by (simp add: past_block_cases)
    show ?thesis
    proof (rule fifo_invI [where pre = "pre @ [i]"])
      show "arrivals s' = (pre @ [i]) @ waiters (processing_lock s')"
        using f(1) False w by (simp add: e(8,9))
      show "x < length (tasks s') \<and> status_of s' x \<noteq> Scheduled \<and> status_of s' x \<noteq> Waiting"
        if "x \<in> set (pre @ [i])" for x
      proof (cases "x = i")
        case True
        with e(1) e(5) False show ?thesis by (simp add: n)
      next
        case ne: False
        with that have "x \<in> set pre" by simp
        from f(2) [OF this] a [OF ne] show ?thesis by (simp add: n)
      qed
      show "past_block (status_of s' x)" if "x \<in> set (butlast (pre @ [i]))" for x
      proof -
        from that have x: "x \<in> set pre" by simp
        from past [OF x] a [OF ip [OF x]] show ?thesis by simp
      qed
    qed (rule c4)
  qed
qed


lemma fifo_inv_Resume:
  assumes "fifo_inv s" and "step (Resume i) s = Some s'"
  shows "fifo_inv s'"
proof -
  note e = step_Resume [OF assms(2)]
  obtain pre where f: "arrivals s = pre @ waiters (processing_lock s)"
    "\<And>x. x \<in> set pre \<Longrightarrow>
       x < length (tasks s) \<and> status_of s x \<noteq> Scheduled \<and> status_of s x \<noteq> Waiting"
    "\<And>x. x \<in> set (butlast pre) \<Longrightarrow> past_block (status_of s x)"
    "\<And>i. i < length (tasks s) \<Longrightarrow> status_of s i \<noteq> Scheduled \<Longrightarrow> i \<in> set (arrivals s)"
    using assms unfolding fifo_inv_def by blast
  have n: "length (tasks s') = length (tasks s)" by (rule e(3))
  have a: "status_of s' j = status_of s j" if "j \<noteq> i" for j
    using e(4) [OF that] by (simp add: status_of_def)
  show ?thesis
  proof (rule fifo_invI [where pre = pre])
    show "arrivals s' = pre @ waiters (processing_lock s')" using f(1) by (simp add: e(7,8))
    show "x < length (tasks s') \<and> status_of s' x \<noteq> Scheduled \<and> status_of s' x \<noteq> Waiting"
      if "x \<in> set pre" for x
      using f(2) [OF that] a [of x] e(5) by (cases "x = i") (simp_all add: n)
    show "past_block (status_of s' x)" if "x \<in> set (butlast pre)" for x
    proof -
      from f(3) [OF that] e(2) have "x \<noteq> i" by auto
      from f(3) [OF that] a [OF this] show ?thesis by simp
    qed
    show "j \<in> set (arrivals s')"
      if "j < length (tasks s')" "status_of s' j \<noteq> Scheduled" for j
      using that f(4) [of j] a [of j] e(1,2) by (cases "j = i") (simp_all add: n e(8))
  qed
qed

lemma fifo_inv_Notify:
  assumes "fifo_inv s" and "step (Notify i tx) s = Some s'"
  shows "fifo_inv s'"
proof -
  note e = step_Notify [OF assms(2)]
  obtain pre where f: "arrivals s = pre @ waiters (processing_lock s)"
    "\<And>x. x \<in> set pre \<Longrightarrow>
       x < length (tasks s) \<and> status_of s x \<noteq> Scheduled \<and> status_of s x \<noteq> Waiting"
    "\<And>x. x \<in> set (butlast pre) \<Longrightarrow> past_block (status_of s x)"
    "\<And>i. i < length (tasks s) \<Longrightarrow> status_of s i \<noteq> Scheduled \<Longrightarrow> i \<in> set (arrivals s)"
    using assms unfolding fifo_inv_def by blast
  have n: "length (tasks s') = length (tasks s)" by (rule e(3))
  from e(2) obtain fr where fr: "status_of s i = Sending fr" "status_of s' i = Finished fr"
    by blast
  have a: "status_of s' j = status_of s j" if "j \<noteq> i" for j
    using e(4) [OF that] by (simp add: status_of_def)
  show ?thesis
  proof (rule fifo_invI [where pre = pre])
    show "arrivals s' = pre @ waiters (processing_lock s')" using f(1) by (simp add: e(6,7))
    show "x < length (tasks s') \<and> status_of s' x \<noteq> Scheduled \<and> status_of s' x \<noteq> Waiting"
      if "x \<in> set pre" for x
      using f(2) [OF that] a [of x] fr(2) by (cases "x = i") (simp_all add: n)
    show "past_block (status_of s' x)" if "x \<in> set (butlast pre)" for x
      using f(3) [OF that] a [of x] fr(2) by (cases "x = i") simp_all
    show "j \<in> set (arrivals s')"
      if "j < length (tasks s')" "status_of s' j \<noteq> Scheduled" for j
      using that f(4) [of j] a [of j] e(1) fr(1) by (cases "j = i") (simp_all add: n e(7))
  qed
qed

lemma fifo_inv_Ws:
  assumes "fifo_inv s" and "step e s = Some s'"
    and "e = WsOpen jid \<or> e = WsPeerClose w \<or> e = WsDisconnect w"
  shows "fifo_inv s'"
  using assms(1) step_Ws(1,2,3) [OF assms(2,3)] by (simp add: fifo_inv_def status_of_def)

lemma fifo_inv_BackendReturn:
  assumes "gate_inv s" and "fifo_inv s" and "step (BackendReturn i env) s = Some s'"
  shows "fifo_inv s'"
proof -
  note e = step_BackendReturn [OF assms(3)]
  note g = gate_invD [OF assms(1)]
  obtain pre where f: "arrivals s = pre @ waiters (processing_lock s)"
    "\<And>x. x \<in> set pre \<Longrightarrow>
       x < length (tasks s) \<and> status_of s x \<noteq> Scheduled \<and> status_of s x \<noteq> Waiting"
    "\<And>x. x \<in> set (butlast pre) \<Longrightarrow> past_block (status_of s x)"
    "\<And>i. i < length (tasks s) \<Longrightarrow> status_of s i \<noteq> Scheduled \<Longrightarrow> i \<in> set (arrivals s)"
    using assms unfolding fifo_inv_def by blast
  have n: "length (tasks s') = length (tasks s)" by (rule e(3))
  from e(4) obtain r where r: "status_of s' i = Sending r" by blast
  have iw: "i \<notin> set (waiters (processing_lock s))" using g(5) [of i] e(2) by simp
  have "i \<in> set (arrivals s)" using f(4) [OF e(1)] e(2) by simp
  with iw have ip: "i \<in> set pre" by (simp add: f(1))
  have ib: "i \<notin> set (butlast pre)" using f(3) [of i] e(2) by auto
  have past: "past_block (status_of s x)" if "x \<in> set pre" "x \<noteq> i" for x
  proof -
    from butlast_or_last [OF that(1)] butlast_or_last [OF ip] ib that(2)
    have "x \<in> set (butlast pre)" by auto
    then show ?thesis by (rule f(3))
  qed
  show ?thesis
  proof (cases "waiters (processing_lock s)")
    case Nil
    have a: "status_of s' j = status_of s j" if "j \<noteq> i" "j < length (tasks s)" for j
      using BackendReturn_status(1) [OF assms(3) that] Nil by simp
    have l: "waiters (processing_lock s') = []" using e(6) Nil by simp
    show ?thesis
    proof (rule fifo_invI [where pre = pre])
      show "arrivals s' = pre @ waiters (processing_lock s')"
        using f(1) Nil by (simp add: l e(7))
      show "x < length (tasks s') \<and> status_of s' x \<noteq> Scheduled \<and> status_of s' x \<noteq> Waiting"
        if "x \<in> set pre" for x
        using f(2) [OF that] a [of x] r by (cases "x = i") (simp_all add: n)
      show "past_block (status_of s' x)" if "x \<in> set (butlast pre)" for x
        using f(3) [OF that] f(2) [OF in_set_butlastD [OF that]] a [of x] r
        by (cases "x = i") simp_all
      show "j \<in> set (arrivals s')"
        if "j < length (tasks s')" "status_of s' j \<noteq> Scheduled" for j
        using that f(4) [of j] a [of j] e(1,2) by (cases "j = i") (simp_all add: n e(7))
    qed
  next
    case (Cons w ws)
    have w: "w < length (tasks s)" "status_of s w = Waiting"
      using g(5) [of w] Cons by simp_all
    have wi: "w \<noteq> i" using w(2) e(2) by auto
    have wp: "x \<noteq> w" if "x \<in> set pre" for x
      using f(2) [OF that] w(2) by auto
    have gr: "status_of s' w = Granted"
      using BackendReturn_status(1) [OF assms(3) wi w(1)] Cons by simp
    have a: "status_of s' j = status_of s j"
      if "j \<noteq> i" "j \<noteq> w" "j < length (tasks s)" for j
      using BackendReturn_status(1) [OF assms(3) that(1,3)] that(2) Cons by simp
    have l: "waiters (processing_lock s') = ws" using e(6) Cons by simp
    show ?thesis
    proof (rule fifo_invI [where pre = "pre @ [w]"])
      show "arrivals s' = (pre @ [w]) @ waiters (processing_lock s')"
        using f(1) Cons by (simp add: l e(7))
      show "x < length (tasks s') \<and> status_of s' x \<noteq> Scheduled \<and> status_of s' x \<noteq> Waiting"
        if "x \<in> set (pre @ [w])" for x
      proof (cases "x = w")
        case True
        with gr w(1) show ?thesis by (simp add: n)
      next
        case False
        with that have x: "x \<in> set pre" by simp
        from f(2) [OF x] a [OF _ False] r show ?thesis by (cases "x = i") (simp_all add: n)
      qed
      show "past_block (status_of s' x)" if "x \<in> set (butlast (pre @ [w]))" for x
      proof -
        from that have x: "x \<in> set pre" by simp
        show ?thesis
        proof (cases "x = i")
          case True
          with r show ?thesis by simp
        next
          case False
          from past [OF x False] a [OF False wp [OF x]] f(2) [OF x] show ?thesis by simp
        qed
      qed
      show "j \<in> set (arrivals s')"
        if "j < length (tasks s')" "status_of s' j \<noteq> Scheduled" for j
      proof (cases "j = i \<or> j = w")
        case True
        then show ?thesis using ip Cons by (auto simp: e(7) f(1))
      next
        case False
        with that a [of j] f(4) [of j] show ?thesis by (simp add: n e(7))
      qed
    qed
  qed
qed

lemma fifo_inv_step:
  assumes "gate_inv s" and "fifo_inv s" and "step e s = Some s'"
  shows "fifo_inv s'"
proof (cases e)
  case (Execute p r)
  with assms show ?thesis using fifo_inv_Execute by blast
next
  case (Start i)
  with assms show ?thesis using fifo_inv_Start by blast
next
  case (Resume i)
  with assms show ?thesis using fifo_inv_Resume by blast
next
  case (BackendReturn i env)
  with assms show ?thesis using fifo_inv_BackendReturn by blast
next
  case (Notify i tx)
  with assms show ?thesis using fifo_inv_Notify by blast
next
  case (WsOpen jid)
  with assms show ?thesis using fifo_inv_Ws by blast
next
  case (WsPeerClose w)
  with assms show ?thesis using fifo_inv_Ws by blast
next
  case (WsDisconnect w)
  with assms show ?thesis using fifo_inv_Ws by blast
qed

lemma fifo_inv_exec:
  assumes "exec es (init fs) = Some s"
  shows "fifo_inv s"
proof -
  have "gate_inv (init fs) \<and> fifo_inv (init fs)"
    by (simp add: gate_inv_init) (simp add: fifo_inv_def init_def)
  moreover have "gate_inv t' \<and> fifo_inv t'"
    if "gate_inv t \<and> fifo_inv t" "step e t = Some t'" for e t t'
    using that gate_inv_step fifo_inv_step by blast
  ultimately have "gate_inv s \<and> fifo_inv s"
    using assms by (rule exec_induct [where P = "\<lambda>s. gate_inv s \<and> fifo_inv s"])
  then show ?thesis by simp
qed

subsection \<open>Handles: when two of them are equal\<close>

lemma uuid4_alt: "uuid4 r = (r AND random_bits) OR fixed_bits"
proof -
  have c: "(push_bit 48 0x8000 :: u128) AND NOT (push_bit 64 0xf000) = push_bit 48 0x8000"
    by simp
  have "uuid4 r = ((r AND NOT (push_bit 48 0xc000)) AND NOT (push_bit 64 0xf000))
          OR ((push_bit 48 0x8000 :: u128) AND NOT (push_bit 64 0xf000)) OR push_bit 76 4"
    unfolding uuid4_def by (simp only: bit.conj_disj_distrib2 or.assoc)
  also have "\<dots> = (r AND random_bits) OR fixed_bits"
    unfolding random_bits_def fixed_bits_def c
    by (simp only: bit.de_Morgan_disj and.assoc or.assoc)
  finally show ?thesis .
qed

lemma uuid4_eq_iff: "uuid4 a = uuid4 b \<longleftrightarrow> a AND random_bits = b AND random_bits"
proof
  assume "uuid4 a = uuid4 b"
  then have "((a AND random_bits) OR fixed_bits) AND random_bits
           = ((b AND random_bits) OR fixed_bits) AND random_bits"
    by (simp add: uuid4_alt)
  moreover have "((x AND random_bits) OR fixed_bits) AND random_bits = x AND random_bits" for x
  proof -
    have "((x AND random_bits) OR fixed_bits) AND random_bits
        = ((x AND random_bits) AND random_bits) OR (fixed_bits AND random_bits)"
      by (simp only: bit.conj_disj_distrib2)
    also have "fixed_bits AND random_bits = 0"
      by (simp add: random_bits_def fixed_bits_def)
    also have "(x AND random_bits) AND random_bits = x AND random_bits"
      by (simp only: and.assoc and.idem)
    finally show ?thesis by simp
  qed
  ultimately show "a AND random_bits = b AND random_bits" by simp
next
  assume "a AND random_bits = b AND random_bits"
  then show "uuid4 a = uuid4 b" by (simp add: uuid4_alt)
qed

lemma hexdigit_inj: "a < 16 \<Longrightarrow> b < 16 \<Longrightarrow> hexdigit a = hexdigit b \<Longrightarrow> a = b"
proof -
  assume a: "a < 16" and b: "b < 16" and e: "hexdigit a = hexdigit b"
  have d: "distinct ''0123456789abcdef''" by simp
  have l: "length ''0123456789abcdef'' = 16" by simp
  from e show "a = b"
    unfolding hexdigit_def using nth_eq_iff_index_eq [OF d, of a b] a b l by simp
qed

lemma nibble_less: "nibble w i < 16"
proof -
  have "nibble w i = take_bit 4 (unat (drop_bit (4 * i) w))"
    by (simp add: nibble_def unsigned_take_bit_eq)
  also have "\<dots> < 2 ^ 4" by (rule take_bit_nat_less_exp)
  finally show ?thesis by simp
qed

lemma nibble_bit:
  assumes "nibble a i = nibble b i" and "k < 4"
  shows "bit a (4 * i + k) = bit b (4 * i + k)"
proof -
  from assms(1) have "take_bit 4 (drop_bit (4 * i) a) = take_bit 4 (drop_bit (4 * i) b)"
    unfolding nibble_def by (rule unsigned_word_eqI)
  then have "bit (take_bit 4 (drop_bit (4 * i) a)) k = bit (take_bit 4 (drop_bit (4 * i) b)) k"
    by simp
  with assms(2) show ?thesis
    by (simp add: bit_take_bit_iff bit_drop_bit_eq)
qed

lemma hex32_inj:
  assumes "hex32 a = hex32 b"
  shows "a = b"
proof (rule bit_word_eqI)
  fix n
  assume "n < LENGTH(128)"
  then have n: "n div 4 < 32" by simp
  from assms have "\<forall>i\<in>set (rev [0..<32]). hexdigit (nibble a i) = hexdigit (nibble b i)"
    unfolding hex32_def by (simp only: map_eq_conv)
  with n have "hexdigit (nibble a (n div 4)) = hexdigit (nibble b (n div 4))" by simp
  then have "nibble a (n div 4) = nibble b (n div 4)"
    by (rule hexdigit_inj [OF nibble_less nibble_less])
  then have "bit a (4 * (n div 4) + n mod 4) = bit b (4 * (n div 4) + n mod 4)"
    by (rule nibble_bit) simp
  then show "bit a n = bit b n" by simp
qed

lemma regroup:
  "take 8 h @ take 4 (drop 8 h) @ take 4 (drop 12 h) @ take 4 (drop 16 h) @ drop 20 h = h"
proof -
  have "take 4 (drop 16 h) @ drop 20 h = drop 16 h"
    using append_take_drop_id [of 4 "drop 16 h"] by simp
  moreover have "take 4 (drop 12 h) @ drop 16 h = drop 12 h"
    using append_take_drop_id [of 4 "drop 12 h"] by simp
  moreover have "take 4 (drop 8 h) @ drop 12 h = drop 8 h"
    using append_take_drop_id [of 4 "drop 8 h"] by simp
  ultimately show ?thesis by simp
qed

lemma digits_of_str_uuid:
  "take 8 (str_uuid w) @ take 4 (drop 9 (str_uuid w)) @ take 4 (drop 14 (str_uuid w))
     @ take 4 (drop 19 (str_uuid w)) @ drop 24 (str_uuid w) = hex32 w"
proof -
  have l: "length (hex32 w) = 32" by (simp add: hex32_def)
  have "take 8 (str_uuid w) @ take 4 (drop 9 (str_uuid w)) @ take 4 (drop 14 (str_uuid w))
     @ take 4 (drop 19 (str_uuid w)) @ drop 24 (str_uuid w)
     = take 8 (hex32 w) @ take 4 (drop 8 (hex32 w)) @ take 4 (drop 12 (hex32 w))
        @ take 4 (drop 16 (hex32 w)) @ drop 20 (hex32 w)"
    by (simp add: str_uuid_def Let_def l)
  then show ?thesis by (simp only: regroup)
qed

lemma str_uuid_inj: "str_uuid a = str_uuid b \<Longrightarrow> a = b"
  using digits_of_str_uuid [of a] digits_of_str_uuid [of b] hex32_inj by simp

lemma handle_eq_iff:
  "str_uuid (uuid4 a) = str_uuid (uuid4 b) \<longleftrightarrow> a AND random_bits = b AND random_bits"
proof -
  have "str_uuid (uuid4 a) = str_uuid (uuid4 b) \<longleftrightarrow> uuid4 a = uuid4 b"
    using str_uuid_inj by auto
  then show ?thesis by (simp only: uuid4_eq_iff)
qed

lemma distinct_map_cong:
  assumes "\<And>x y. f x = f y \<longleftrightarrow> g x = g y"
  shows "distinct (map f xs) = distinct (map g xs)"
proof (induction xs)
  case Nil
  show ?case by simp
next
  case (Cons x xs)
  have "f x \<in> f ` set xs \<longleftrightarrow> g x \<in> g ` set xs"
    using assms by (auto simp: image_iff)
  with Cons show ?case by simp
qed

subsection \<open>Delivery is best effort\<close>

text \<open>
  C6. \<^verbatim>\<open>send_result\<close> returns for every handle, payload, transport behaviour and
  state, and never raises. Without a registration for the handle it changes nothing.
  With one, if \<^verbatim>\<open>send_json\<close> raises (the socket is closed or the transport fails),
  nothing is sent and the exception is printed after the send line and dropped.
\<close>

theorem send_result_returns:
  "fst (send_result jid data tx s) = Inr ()
   \<and> (active_connections s jid = None \<longrightarrow> snd (send_result jid data tx s) = s)
   \<and> (\<forall>w e. active_connections s jid = Some w
         \<longrightarrow> fst (send_json w data tx (print (WS_SEND jid) s)) = Inl e
         \<longrightarrow> sent (snd (send_result jid data tx s)) = sent s
             \<and> stdout (snd (send_result jid data tx s))
                 = stdout s @ [WS_SEND jid, WS_SEND_ERROR jid e])"
  by (auto simp: send_result_def send_json_def
      split: option.splits prod.splits sum.splits if_splits)

theorem send_result_returns_witness:
  "active_connections closed_channel ''h'' = Some 0
   \<and> fst (send_json 0 [] None (print (WS_SEND ''h'') closed_channel)) = Inl closed_error
   \<and> active_connections closed_channel ''g'' = None
   \<and> fst (send_result ''h'' [] None closed_channel) = Inr ()
   \<and> snd (send_result ''g'' [] None closed_channel) = closed_channel
   \<and> sent (snd (send_result ''h'' [] None closed_channel)) = []
   \<and> stdout (snd (send_result ''h'' [] None closed_channel))
        = [WS_CONN ''h'', WS_SEND ''h'', WS_SEND_ERROR ''h'' closed_error]"
proof -
  have a: "active_connections closed_channel ''h'' = Some 0"
    by (simp add: closed_channel_def peer_close_def websocket_endpoint_def connect_def init_def)
  have b: "fst (send_json 0 [] None (print (WS_SEND ''h'') closed_channel)) = Inl closed_error"
    by (simp add: closed_channel_def peer_close_def websocket_endpoint_def connect_def
        init_def send_json_def)
  have c: "active_connections closed_channel ''g'' = None"
    by (simp add: closed_channel_def peer_close_def websocket_endpoint_def connect_def init_def)
  have d: "sent closed_channel = []" "stdout closed_channel = [WS_CONN ''h'']"
    by (simp_all add: closed_channel_def peer_close_def websocket_endpoint_def connect_def
        init_def)
  from send_result_returns [of "''h''" "[]" None closed_channel] a b d
  have "fst (send_result ''h'' [] None closed_channel) = Inr ()
     \<and> sent (snd (send_result ''h'' [] None closed_channel)) = []
     \<and> stdout (snd (send_result ''h'' [] None closed_channel))
        = [WS_CONN ''h'', WS_SEND ''h'', WS_SEND_ERROR ''h'' closed_error]"
    by simp
  moreover from send_result_returns [of "''g''" "[]" None closed_channel] c
  have "snd (send_result ''g'' [] None closed_channel) = closed_channel" by simp
  ultimately show ?thesis using a b c by simp
qed

subsection \<open>Deregistration is by handle\<close>

text \<open>
  C10. From any state, let two clients open a socket under the same handle \<open>h\<close>; the
  second registration replaces the first. When the first peer closes and its handler
  calls \<^verbatim>\<open>disconnect\<close>, the registry has no entry for \<open>h\<close> any more, although the
  second socket is still open and its handler still listening; a result for \<open>h\<close> is
  then delivered to nobody.
\<close>

theorem superseded_disconnect_deregisters:
  "\<exists>s'. exec [WsOpen h, WsOpen h, WsPeerClose (length (sockets s)),
               WsDisconnect (length (sockets s))] s = Some s'
     \<and> active_connections (websocket_endpoint h (websocket_endpoint h s)) h
         = Some (Suc (length (sockets s)))
     \<and> active_connections s' h = None
     \<and> ws_open (sockets s' ! Suc (length (sockets s)))
     \<and> ws_listening (sockets s' ! Suc (length (sockets s)))
     \<and> snd (send_result h data tx s') = s'"
  by (simp add: websocket_endpoint_def connect_def peer_close_def websocket_disconnected_def
      disconnect_def send_result_def nth_append)

subsection \<open>Handles issued in a run\<close>

lemma job_ids_step:
  "step e s = Some s' \<Longrightarrow>
     map job_id (tasks s') = map job_id (tasks s) @ map (str_uuid \<circ> uuid4) (draws [e])"
proof (cases e)
  case (Execute p r)
  assume "step e s = Some s'"
  with Execute show ?thesis by (auto simp: execute_workflow_def Let_def)
next
  case (Start i)
  assume "step e s = Some s'"
  with Start show ?thesis
    by (auto simp: process_job_begin_def acquire_def enter_def job_ids_set_status
        split: if_splits)
next
  case (Resume i)
  assume "step e s = Some s'"
  with Resume show ?thesis
    by (auto simp: process_job_resume_def enter_def job_ids_set_status split: if_splits)
next
  case (BackendReturn i env)
  assume a: "step e s = Some s'"
  obtain r s1 where b: "job_body env (job_params (tasks s ! i)) s = (r, s1)"
    by (cases "job_body env (job_params (tasks s ! i)) s")
  have c: "map job_id (tasks (before_send i x y z)) = map job_id (tasks z)" for x y z
    by (cases "i < length (tasks z)")
       (simp_all add: before_send_def Let_def map_update list_update_same_conv list_update_beyond)
  from a b BackendReturn job_body_frame [OF b] show ?thesis
    by (auto simp: process_job_finish_def c job_ids_unlock split: if_splits sum.splits)
next
  case (Notify i tx)
  assume a: "step e s = Some s'"
  show ?thesis
  proof (cases "status (tasks s ! i)")
    case (Sending fr)
    obtain r s1 where b: "send_result (job_id (tasks s ! i)) fr tx s = (r, s1)"
      by (cases "send_result (job_id (tasks s ! i)) fr tx s")
    from a b Notify Sending send_result_frame [OF b] show ?thesis
      by (auto simp: process_job_notify_def set_status_def map_update list_update_same_conv
          split: if_splits sum.splits)
  qed (use a Notify in \<open>auto split: if_splits\<close>)
next
  case (WsOpen jid)
  assume "step e s = Some s'"
  with WsOpen show ?thesis by (auto simp: websocket_endpoint_def connect_def)
next
  case (WsPeerClose w)
  assume "step e s = Some s'"
  with WsPeerClose show ?thesis by (auto simp: peer_close_def split: if_splits)
next
  case (WsDisconnect w)
  assume "step e s = Some s'"
  with WsDisconnect show ?thesis
    by (auto simp: websocket_disconnected_def disconnect_def split: if_splits)
qed

lemma draws_Cons: "draws (e # es) = draws [e] @ draws es"
  by (cases e) simp_all

lemma job_ids_exec:
  "exec es s = Some s' \<Longrightarrow>
     map job_id (tasks s') = map job_id (tasks s) @ map (str_uuid \<circ> uuid4) (draws es)"
proof (induction es arbitrary: s)
  case Nil
  then show ?case by simp
next
  case (Cons e es)
  from Cons.prems obtain s1 where a: "step e s = Some s1" and b: "exec es s1 = Some s'"
    by (auto split: option.splits)
  from job_ids_step [OF a] Cons.IH [OF b] draws_Cons [of e es] show ?case by simp
qed

text \<open>
  C7 (amended). In every run from the initial state, the handles issued are, in order,
  the renderings of \<^verbatim>\<open>uuid4\<close> on the random bytes that the admissions read; they
  are pairwise distinct exactly when those random bytes are pairwise distinct outside
  the six bits that \<^verbatim>\<open>uuid4\<close> overwrites. The server keeps no record of the handles it
  has issued.
\<close>

theorem handles_distinct_iff:
  "exec es (init fs) = Some s \<Longrightarrow>
     map job_id (tasks s) = map (\<lambda>r. str_uuid (uuid4 r)) (draws es)
     \<and> (distinct (map job_id (tasks s)) \<longleftrightarrow> distinct (map (\<lambda>r. r AND random_bits) (draws es)))"
proof -
  assume "exec es (init fs) = Some s"
  from job_ids_exec [OF this]
  have a: "map job_id (tasks s) = map (\<lambda>r. str_uuid (uuid4 r)) (draws es)"
    by (simp add: init_def comp_def)
  have "distinct (map (\<lambda>r. str_uuid (uuid4 r)) (draws es))
      = distinct (map (\<lambda>r. r AND random_bits) (draws es))"
    by (rule distinct_map_cong) (rule handle_eq_iff)
  with a show ?thesis by simp
qed

theorem handles_distinct_iff_witness:
  "exec [Execute [] 1, WsOpen ''h'', Execute [] 2] (init Map.empty) = Some two_admissions
   \<and> distinct (map (\<lambda>r. r AND random_bits) [1, 2 :: u128])
   \<and> distinct (map job_id (tasks two_admissions))"
proof -
  have a: "exec [Execute [] 1, WsOpen ''h'', Execute [] 2] (init Map.empty)
     = Some two_admissions"
    by (simp add: two_admissions_def)
  have b: "distinct (map (\<lambda>r. r AND random_bits) [1, 2 :: u128])"
    by (simp add: random_bits_def)
  from handles_distinct_iff [OF a]
  have "distinct (map job_id (tasks two_admissions))
      = distinct (map (\<lambda>r. r AND random_bits)
          (draws [Execute [] 1, WsOpen ''h'', Execute [] 2]))"
    by (rule conjunct2)
  with b have "distinct (map job_id (tasks two_admissions))" by simp
  with a b show ?thesis by blast
qed

text \<open>
  C7 as stated fails: two admissions whose \<^verbatim>\<open>uuid4\<close> calls read the same 16 bytes are
  given the same handle.
\<close>

theorem handles_collide_counterexample:
  "map_option (\<lambda>s. map job_id (tasks s)) (exec [Execute [] 0, Execute [] 0] (init Map.empty))
     = Some [''00000000-0000-4000-8000-000000000000'', ''00000000-0000-4000-8000-000000000000'']
   \<and> map_option (\<lambda>s. distinct (map job_id (tasks s)))
         (exec [Execute [] 0, Execute [] 0] (init Map.empty)) = Some False"
  by (simp add: execute_workflow_def init_def Let_def print_def str_uuid_def uuid4_def hex32_def nibble_def hexdigit_def upt_rec)

subsection \<open>Admission\<close>

text \<open>
  C9 (amended). For every parameter bundle, whatever its fields, and every state, the
  admission handler returns \<^verbatim>\<open>{"status": "success", "job_id": <handle>}\<close>: the handle
  is under the key \<^verbatim>\<open>job_id\<close>. On return the job exists as a scheduled task that has
  not run: the lock, the files and the messages sent are as before, and nothing but the
  line about the received job was printed.
\<close>

theorem admission_response:
  "fst (execute_workflow p r s) = [(''status'', PStr ''success''), (''job_id'', PStr (str_uuid (uuid4 r)))]
   \<and> step (Execute p r) s = Some (snd (execute_workflow p r s))
   \<and> tasks (snd (execute_workflow p r s))
        = tasks s @ [\<lparr>job_id = str_uuid (uuid4 r), job_params = p, status = Scheduled, outcome = None\<rparr>]
   \<and> processing_lock (snd (execute_workflow p r s)) = processing_lock s
   \<and> files (snd (execute_workflow p r s)) = files s
   \<and> sent (snd (execute_workflow p r s)) = sent s
   \<and> stdout (snd (execute_workflow p r s)) = stdout s @ [JOB_RECEIVED (str_uuid (uuid4 r)) p]"
  by (simp add: execute_workflow_def Let_def)

text \<open>
  C9 as stated fails: the response to an empty bundle has no key \<^verbatim>\<open>handle\<close>.
\<close>

theorem admission_response_counterexample:
  "map_of (fst (execute_workflow [] 0 (init Map.empty))) ''handle'' = None
   \<and> fst (execute_workflow [] 0 (init Map.empty))
       = [(''status'', PStr ''success''), (''job_id'', PStr ''00000000-0000-4000-8000-000000000000'')]"
  by (simp add: execute_workflow_def init_def Let_def print_def str_uuid_def uuid4_def hex32_def nibble_def hexdigit_def upt_rec)

subsection \<open>A failing job\<close>

lemma job_body_raises:
  "fst (run_musetalk_inference env p s) = Inl e \<Longrightarrow> fst (job_body env p s) = Inl e"
  by (auto simp: job_body_def split: prod.splits sum.splits)

text \<open>
  C4. When the backend invocation of a running job raises \<open>e\<close>, the task goes on: the
  return of the backend call is a step of the task, after it the result to send is
  \<^verbatim>\<open>{"format": "error", "error": str(e)}\<close> and the recorded outcome is \<open>e\<close>; the
  send that follows returns whatever the transport does, and the task ends by returning,
  not with an exception.
\<close>

theorem failure_is_caught:
  assumes "i < length (tasks s)" and "status (tasks s ! i) = Running"
    and "fst (run_musetalk_inference env (job_params (tasks s ! i)) s) = Inl e"
  shows "\<exists>s'. step (BackendReturn i env) s = Some s'
     \<and> status (tasks s' ! i)
        = Sending [(''format'', PStr ''error''), (''error'', PStr (str_exn e))]
     \<and> outcome (tasks s' ! i) = Some (Inl e)
     \<and> (\<forall>tx. \<exists>s''. step (Notify i tx) s' = Some s''
           \<and> status (tasks s'' ! i)
              = Finished [(''format'', PStr ''error''), (''error'', PStr (str_exn e))])"
proof -
  obtain r s1 where a: "job_body env (job_params (tasks s ! i)) s = (r, s1)"
    by (cases "job_body env (job_params (tasks s ! i)) s")
  with job_body_raises [OF assms(3)] have r: "r = Inl e" by simp
  let ?s' = "process_job_finish i env s"
  from job_body_frame [OF a] assms(1) have l: "i < length (tasks (unlock s1))" by simp
  have f: "?s' = before_send i (Inl e) (error_result e)
                  (print (JOB_ERROR (job_id (tasks s ! i)) e) (unlock s1))"
    using a r assms(3) by (simp add: process_job_finish_def)
  have t: "status (tasks ?s' ! i) = Sending (error_result e)"
      "outcome (tasks ?s' ! i) = Some (Inl e)" "i < length (tasks ?s')"
    using l by (simp_all add: f before_send_task)
  have "step (BackendReturn i env) s = Some ?s'" using assms by simp
  moreover have "\<forall>tx. \<exists>s''. step (Notify i tx) ?s' = Some s''
           \<and> status (tasks s'' ! i) = Finished (error_result e)"
    using notify_returns [OF t(3) t(1)] by blast
  ultimately show ?thesis using t by (simp add: error_result_def)
qed

lemma one_running_facts:
  "tasks one_running
     = [\<lparr>job_id = str_uuid (uuid4 0), job_params = full_bundle, status = Running, outcome = None\<rparr>]"
  "files one_running = disk"
  by (simp_all add: one_running_def process_job_begin_def acquire_def enter_def set_status_def
      execute_workflow_def Let_def init_def)

lemma boom_raises:
  "fst (run_musetalk_inference backend_boom full_bundle s) = Inl (Exn ''ValueError'' ''boom'')"
  by (simp add: run_musetalk_inference_def inference_body_def backend_boom_def full_bundle_def
      predict_kwargs_def and_then_def getitem_def)

theorem failure_is_caught_witness:
  "0 < length (tasks one_running) \<and> status (tasks one_running ! 0) = Running
   \<and> fst (run_musetalk_inference backend_boom (job_params (tasks one_running ! 0)) one_running)
       = Inl (Exn ''ValueError'' ''boom'')
   \<and> (\<exists>s'. step (BackendReturn 0 backend_boom) one_running = Some s'
        \<and> status (tasks s' ! 0) = Sending [(''format'', PStr ''error''), (''error'', PStr ''boom'')])"
proof -
  have a: "0 < length (tasks one_running)" and b: "status (tasks one_running ! 0) = Running"
    by (simp_all add: one_running_facts)
  have c: "fst (run_musetalk_inference backend_boom (job_params (tasks one_running ! 0))
             one_running) = Inl (Exn ''ValueError'' ''boom'')"
    by (simp add: one_running_facts boom_raises)
  from failure_is_caught [OF a b c] a b c show ?thesis by auto
qed


subsection \<open>A successful job\<close>

lemma os_rename_ok:
  "os_rename env src dst s = (Inr u, s') \<Longrightarrow>
     \<exists>a b c. src = PStr a \<and> dst = PStr b \<and> files s a = Some c
       \<and> files s' = (files s)(a := None, b \<mapsto> c)"
  by (auto simp: os_rename_def split: pyval.splits option.splits)

lemma relocate_ok:
  "relocate env p t s = (Inr v, s') \<Longrightarrow>
     \<exists>a b c. t = PStr a \<and> v = PStr b \<and> getitem p ''output_file_path'' = Inr (PStr b)
       \<and> files s a = Some c \<and> files s' = (files s)(a := None, b \<mapsto> c)"
  by (auto simp: relocate_def split: sum.splits prod.splits dest!: os_rename_ok)

lemma inference_body_ok:
  "inference_body env p s = (Inr v, s') \<Longrightarrow>
     \<exists>result a b c. and_then (predict_kwargs env p) (predict env) = Inr result
       \<and> temp_path result = Inr (PStr a) \<and> v = PStr b
       \<and> getitem p ''output_file_path'' = Inr (PStr b)
       \<and> files s a = Some c \<and> files s' = (files s)(a := None, b \<mapsto> c)"
  by (auto simp: inference_body_def split: option.splits sum.splits dest!: relocate_ok)

lemma run_musetalk_inference_ok:
  "run_musetalk_inference env p s = (Inr v, s') \<Longrightarrow>
     \<exists>result a b c. and_then (predict_kwargs env p) (predict env) = Inr result
       \<and> temp_path result = Inr (PStr a) \<and> v = PStr b
       \<and> getitem p ''output_file_path'' = Inr (PStr b)
       \<and> files s a = Some c \<and> files s' = (files s)(a := None, b \<mapsto> c)"
  by (auto simp: run_musetalk_inference_def split: prod.splits sum.splits
      dest!: inference_body_ok)

text \<open>
  C5. When the backend invocation of a running job returns, the backend had answered
  with a temporary path \<open>temp\<close> that held an artifact, the value returned is the
  caller's \<^verbatim>\<open>output_file_path\<close>, the artifact is at that path and no longer at
  \<open>temp\<close>, and the result to send is
  \<^verbatim>\<open>{"format": "filePath", "data": final, "filename": basename(final)}\<close>.
\<close>

theorem success_relocates:
  assumes "i < length (tasks s)" and "status (tasks s ! i) = Running"
    and "fst (run_musetalk_inference env (job_params (tasks s ! i)) s) = Inr v"
  shows "\<exists>result temp final c s'.
       and_then (predict_kwargs env (job_params (tasks s ! i))) (predict env) = Inr result
     \<and> temp_path result = Inr (PStr temp)
     \<and> getitem (job_params (tasks s ! i)) ''output_file_path'' = Inr (PStr final)
     \<and> v = PStr final
     \<and> files s temp = Some c
     \<and> step (BackendReturn i env) s = Some s'
     \<and> files s' = (files s)(temp := None, final \<mapsto> c)
     \<and> status (tasks s' ! i)
        = Sending [(''format'', PStr ''filePath''), (''data'', PStr final),
                   (''filename'', PStr (basename final))]"
proof -
  let ?p = "job_params (tasks s ! i)"
  obtain r s1 where a: "run_musetalk_inference env ?p s = (r, s1)"
    by (cases "run_musetalk_inference env ?p s")
  with assms(3) have a': "run_musetalk_inference env ?p s = (Inr v, s1)" by simp
  from run_musetalk_inference_ok [OF a'] obtain result temp final c where
    b: "and_then (predict_kwargs env ?p) (predict env) = Inr result"
      "temp_path result = Inr (PStr temp)" "v = PStr final"
      "getitem ?p ''output_file_path'' = Inr (PStr final)"
      "files s temp = Some c" "files s1 = (files s)(temp := None, final \<mapsto> c)"
    by blast
  let ?fr = "[(''format'', PStr ''filePath''), (''data'', PStr final),
              (''filename'', PStr (basename final))]"
  let ?s' = "process_job_finish i env s"
  have j: "job_body env ?p s = (Inr ?fr, s1)"
    using a' b(3) by (simp add: job_body_def py_basename_def)
  from job_body_frame [OF j] assms(1) have l: "i < length (tasks (unlock s1))" by simp
  have f: "?s' = before_send i (Inr v) ?fr (unlock s1)"
    using j assms(3) by (simp add: process_job_finish_def)
  have "status (tasks ?s' ! i) = Sending ?fr" using l by (simp add: f before_send_task)
  moreover have "files ?s' = (files s)(temp := None, final \<mapsto> c)"
    using b(6) by (simp add: f)
  moreover have "step (BackendReturn i env) s = Some ?s'" using assms by simp
  ultimately show ?thesis using b by blast
qed

lemma ok_returns:
  "fst (run_musetalk_inference backend_ok full_bundle one_running) = Inr (PStr ''/out/final.mp4'')"
  by (simp add: run_musetalk_inference_def inference_body_def backend_ok_def full_bundle_def
      predict_kwargs_def and_then_def getitem_def temp_path_def first_item_def dict_get_def
      relocate_def os_rename_def one_running_facts disk_def)

theorem success_relocates_witness:
  "0 < length (tasks one_running) \<and> status (tasks one_running ! 0) = Running
   \<and> fst (run_musetalk_inference backend_ok (job_params (tasks one_running ! 0)) one_running)
       = Inr (PStr ''/out/final.mp4'')
   \<and> (\<exists>s'. step (BackendReturn 0 backend_ok) one_running = Some s'
        \<and> files s' ''/out/final.mp4'' = Some 7 \<and> files s' ''/tmp/gradio/out.mp4'' = None
        \<and> status (tasks s' ! 0)
           = Sending [(''format'', PStr ''filePath''), (''data'', PStr ''/out/final.mp4''),
                      (''filename'', PStr ''final.mp4'')])"
proof -
  have a: "0 < length (tasks one_running)" and b: "status (tasks one_running ! 0) = Running"
    by (simp_all add: one_running_facts)
  have c: "fst (run_musetalk_inference backend_ok (job_params (tasks one_running ! 0))
             one_running) = Inr (PStr ''/out/final.mp4'')"
    by (simp add: one_running_facts ok_returns)
  have t: "temp_path [PDict [(''video'', PStr ''/tmp/gradio/out.mp4'')]]
             = Inr (PStr ''/tmp/gradio/out.mp4'')"
    by (simp add: temp_path_def first_item_def dict_get_def and_then_def)
  have k: "and_then (predict_kwargs backend_ok full_bundle) (predict backend_ok)
             = Inr [PDict [(''video'', PStr ''/tmp/gradio/out.mp4'')]]"
    by (simp add: backend_ok_def full_bundle_def predict_kwargs_def and_then_def getitem_def)
  have n: "basename ''/out/final.mp4'' = ''final.mp4''" by (simp add: basename_def)
  from success_relocates [OF a b c] obtain result temp final c' s' where
    d: "and_then (predict_kwargs backend_ok (job_params (tasks one_running ! 0)))
          (predict backend_ok) = Inr result"
      "temp_path result = Inr (PStr temp)" "PStr ''/out/final.mp4'' = PStr final"
      "files one_running temp = Some c'"
      "step (BackendReturn 0 backend_ok) one_running = Some s'"
      "files s' = (files one_running)(temp := None, final \<mapsto> c')"
      "status (tasks s' ! 0)
        = Sending [(''format'', PStr ''filePath''), (''data'', PStr final),
                   (''filename'', PStr (basename final))]"
    by blast
  from d(1) k have "result = [PDict [(''video'', PStr ''/tmp/gradio/out.mp4'')]]"
    by (simp add: one_running_facts)
  with d(2) t have e: "temp = ''/tmp/gradio/out.mp4''" by simp
  from d(3) have g: "final = ''/out/final.mp4''" by simp
  from d(4) e have h: "c' = 7" by (simp add: one_running_facts disk_def)
  from d(5) d(6) d(7) e g h n a b c show ?thesis
    by (simp add: one_running_facts disk_def)
qed

subsection \<open>One backend call at a time\<close>

lemma two_jobs_run:
  "exec [Execute full_bundle 1, Execute full_bundle 2, Start 0, Start 1] (init disk)
     = Some two_jobs"
  by (simp add: two_jobs_def execute_workflow_def Let_def init_def process_job_begin_def
      acquire_def enter_def set_status_def)

lemma two_jobs_facts:
  "length (tasks two_jobs) = 2"
  "status_of two_jobs 0 = Running"
  "status_of two_jobs (Suc 0) = Waiting"
  "processing_lock two_jobs = \<lparr>locked = True, waiters = [1]\<rparr>"
  "arrivals two_jobs = [0, 1]"
  "job_params (tasks two_jobs ! 0) = full_bundle"
  "sent two_jobs = []"
  by (simp_all add: two_jobs_def execute_workflow_def Let_def init_def process_job_begin_def
      acquire_def enter_def set_status_def status_of_def)

text \<open>
  C1. In every state that a run of the server reaches, a task whose backend call is in
  flight holds the lock, and no other task has a backend call in flight.
\<close>

theorem one_backend_call_at_a_time:
  assumes "exec es (init fs) = Some s" and "i < length (tasks s)" and "status_of s i = Running"
  shows "locked (processing_lock s)
     \<and> (\<forall>j < length (tasks s). status_of s j = Running \<longrightarrow> j = i)"
proof -
  note g = gate_invD [OF gate_inv_exec [OF assms(1)]]
  have h: "holds_lock (status_of s i)" using assms(3) by (simp add: holds_lock_def)
  have "locked (processing_lock s)" using g(2) assms(2) h by blast
  moreover have "j = i" if "j < length (tasks s)" "status_of s j = Running" for j
    using g(1) [OF that(1) assms(2) _ h] that(2) by (simp add: holds_lock_def)
  ultimately show ?thesis by blast
qed

theorem one_backend_call_at_a_time_witness:
  "exec [Execute full_bundle 1, Execute full_bundle 2, Start 0, Start 1] (init disk)
     = Some two_jobs
   \<and> 0 < length (tasks two_jobs) \<and> status_of two_jobs 0 = Running
   \<and> locked (processing_lock two_jobs)
   \<and> status_of two_jobs 1 \<noteq> Running"
proof -
  have a: "0 < length (tasks two_jobs)" and b: "status_of two_jobs 0 = Running"
    by (simp_all add: two_jobs_facts)
  from one_backend_call_at_a_time [OF two_jobs_run a b]
  have "locked (processing_lock two_jobs)"
    and "\<forall>j < length (tasks two_jobs). status_of two_jobs j = Running \<longrightarrow> j = 0"
    by blast+
  then have "locked (processing_lock two_jobs)" and "status_of two_jobs 1 \<noteq> Running"
    by (auto simp: two_jobs_facts)
  with two_jobs_run a b show ?thesis by blast
qed

subsection \<open>The lock is released before the result is sent\<close>

text \<open>
  C3. In every reachable state, when the backend call of a task comes back, with a value
  or with an exception, the same step leaves the task before its send with the payload
  of that outcome, nothing has been sent yet, and the lock is passed on: with no waiter
  it is free and any scheduled task that runs next enters its backend call; with waiters
  the first of them holds the lock, is out of the queue, and enters its backend call when
  it runs next.
\<close>

theorem lock_released_before_send:
  assumes "exec es (init fs) = Some s" and "step (BackendReturn i env) s = Some s'"
  shows "status_of s' i = Sending (result_of (fst (job_body env (job_params (tasks s ! i)) s)))
     \<and> sent s' = sent s
     \<and> (case waiters (processing_lock s) of
          [] \<Rightarrow> \<not> locked (processing_lock s')
                \<and> (\<forall>k < length (tasks s'). status_of s' k = Scheduled \<longrightarrow>
                     (\<exists>s''. step (Start k) s' = Some s'' \<and> status_of s'' k = Running))
        | w # ws \<Rightarrow> locked (processing_lock s') \<and> waiters (processing_lock s') = ws
                \<and> status_of s' w = Granted
                \<and> (\<exists>s''. step (Resume w) s' = Some s'' \<and> status_of s'' w = Running))"
proof -
  note e = step_BackendReturn [OF assms(2)]
  note g = gate_invD [OF gate_inv_exec [OF assms(1)]]
  have L: "locked (processing_lock s)"
    using g(2) e(1) e(2) by (auto simp: holds_lock_def)
  have "case waiters (processing_lock s) of
          [] \<Rightarrow> \<not> locked (processing_lock s')
                \<and> (\<forall>k < length (tasks s'). status_of s' k = Scheduled \<longrightarrow>
                     (\<exists>s''. step (Start k) s' = Some s'' \<and> status_of s'' k = Running))
        | w # ws \<Rightarrow> locked (processing_lock s') \<and> waiters (processing_lock s') = ws
                \<and> status_of s' w = Granted
                \<and> (\<exists>s''. step (Resume w) s' = Some s'' \<and> status_of s'' w = Running)"
  proof (cases "waiters (processing_lock s)")
    case Nil
    then have l: "\<not> locked (processing_lock s')" using e(6) by simp
    have "\<exists>s''. step (Start k) s' = Some s'' \<and> status_of s'' k = Running"
      if "k < length (tasks s')" "status_of s' k = Scheduled" for k
    proof -
      have "step (Start k) s' = Some (process_job_begin k s')"
        using that by (simp add: status_of_def)
      moreover from step_Start(5) [OF this] l
      have "status_of (process_job_begin k s') k = Running" by simp
      ultimately show ?thesis by blast
    qed
    with l Nil show ?thesis by simp
  next
    case (Cons w ws)
    have w: "w < length (tasks s)" "status_of s w = Waiting"
      using g(5) [of w] Cons by simp_all
    have wi: "w \<noteq> i" using w(2) e(2) by auto
    have gr: "status_of s' w = Granted"
      using BackendReturn_status(1) [OF assms(2) wi w(1)] Cons by simp
    have "step (Resume w) s' = Some (process_job_resume w s')"
      using gr w(1) e(3) by (simp add: status_of_def)
    moreover from step_Resume(5) [OF this]
    have "status_of (process_job_resume w s') w = Running" .
    ultimately have "\<exists>s''. step (Resume w) s' = Some s'' \<and> status_of s'' w = Running"
      by blast
    with Cons gr L e(6) show ?thesis by simp
  qed
  with e(4) e(8) show ?thesis by blast
qed


theorem lock_released_before_send_witness:
  "exec [Execute full_bundle 1, Execute full_bundle 2, Start 0, Start 1] (init disk)
     = Some two_jobs
   \<and> step (BackendReturn 0 backend_boom) two_jobs
       = Some (process_job_finish 0 backend_boom two_jobs)
   \<and> status_of (process_job_finish 0 backend_boom two_jobs) 0
       = Sending [(''format'', PStr ''error''), (''error'', PStr ''boom'')]
   \<and> sent (process_job_finish 0 backend_boom two_jobs) = []
   \<and> status_of (process_job_finish 0 backend_boom two_jobs) 1 = Granted
   \<and> (\<exists>s''. step (Resume 1) (process_job_finish 0 backend_boom two_jobs) = Some s''
         \<and> status_of s'' 1 = Running)"
proof -
  have a: "step (BackendReturn 0 backend_boom) two_jobs
       = Some (process_job_finish 0 backend_boom two_jobs)"
    using two_jobs_facts(1,2) by (simp add: status_of_def)
  have b: "fst (job_body backend_boom (job_params (tasks two_jobs ! 0)) two_jobs)
        = Inl (Exn ''ValueError'' ''boom'')"
    by (simp add: two_jobs_facts job_body_raises boom_raises)
  from lock_released_before_send [OF two_jobs_run a] b
  show ?thesis
    using two_jobs_run a by (simp add: two_jobs_facts result_of_def error_result_def)
qed

subsection \<open>Arrival order\<close>

lemma arrivals_step:
  assumes "step e s = Some s'"
  shows "arrivals s' = arrivals s @ gate_order [e]"
proof (cases e)
  case (Execute p r)
  from step_Execute(5) [OF assms [unfolded Execute]] show ?thesis by (simp add: Execute)
next
  case (Start i)
  from step_Start(9) [OF assms [unfolded Start]] show ?thesis by (simp add: Start)
next
  case (Resume i)
  from step_Resume(8) [OF assms [unfolded Resume]] show ?thesis by (simp add: Resume)
next
  case (BackendReturn i env)
  from step_BackendReturn(7) [OF assms [unfolded BackendReturn]] show ?thesis
    by (simp add: BackendReturn)
next
  case (Notify i tx)
  from step_Notify(7) [OF assms [unfolded Notify]] show ?thesis by (simp add: Notify)
next
  case (WsOpen jid)
  then have "e = WsOpen jid \<or> e = WsPeerClose 0 \<or> e = WsDisconnect 0" by simp
  from step_Ws(3) [OF assms this] show ?thesis by (simp add: WsOpen)
next
  case (WsPeerClose w)
  then have "e = WsOpen [] \<or> e = WsPeerClose w \<or> e = WsDisconnect w" by simp
  from step_Ws(3) [OF assms this] show ?thesis by (simp add: WsPeerClose)
next
  case (WsDisconnect w)
  then have "e = WsOpen [] \<or> e = WsPeerClose w \<or> e = WsDisconnect w" by simp
  from step_Ws(3) [OF assms this] show ?thesis by (simp add: WsDisconnect)
qed

lemma exec_append:
  "exec (es @ es') s = (case exec es s of None \<Rightarrow> None | Some t \<Rightarrow> exec es' t)"
  by (induction es arbitrary: s) (simp_all split: option.splits)

lemma gate_order_Cons: "gate_order (e # es) = gate_order [e] @ gate_order es"
  by (cases e) simp_all

lemma arrivals_exec: "exec es s = Some s' \<Longrightarrow> arrivals s' = arrivals s @ gate_order es"
proof (induction es arbitrary: s)
  case Nil
  then show ?case by simp
next
  case (Cons e es)
  from Cons.prems obtain t where t: "step e s = Some t" "exec es t = Some s'"
    by (auto split: option.splits)
  from arrivals_step [OF t(1)] Cons.IH [OF t(2)] gate_order_Cons [of e es]
  show ?case by simp
qed

text \<open>
  C2. In every run, if task A reached the lock acquisition before task B (A comes
  before B in the order of first steps) and the backend call of B has started, then A
  is past its block: the backend call of A has started and come back, and A has released
  the lock. The grant from a releasing task to a waiter is a step of its own before the
  waiter's backend call starts, so the call of A is over strictly before the call of B
  begins.
\<close>

theorem lock_granted_in_arrival_order:
  assumes "exec es (init fs) = Some s"
    and "p < q" and "q < length (gate_order es)"
    and "started (status_of s (gate_order es ! q))"
  shows "past_block (status_of s (gate_order es ! p))"
proof -
  note g = gate_invD [OF gate_inv_exec [OF assms(1)]]
  have ar: "arrivals s = gate_order es"
    using arrivals_exec [OF assms(1)] by (simp add: init_def)
  obtain pre where f: "arrivals s = pre @ waiters (processing_lock s)"
    "\<And>x. x \<in> set (butlast pre) \<Longrightarrow> past_block (status_of s x)"
    using fifo_inv_exec [OF assms(1)] unfolding fifo_inv_def by blast
  have q: "q < length pre"
  proof (rule ccontr)
    assume "\<not> q < length pre"
    with assms(3) have "arrivals s ! q \<in> set (waiters (processing_lock s))"
      by (simp add: ar [symmetric] f(1) nth_append)
    with g(5) have "status_of s (arrivals s ! q) = Waiting" by blast
    with assms(4) show False by (simp add: ar started_def)
  qed
  with assms(2) have p: "p < length (butlast pre)" by simp
  then have "butlast pre ! p \<in> set (butlast pre)" by (rule nth_mem)
  moreover have "butlast pre ! p = arrivals s ! p"
  proof -
    from p have "p < length pre" by simp
    with p show ?thesis by (simp add: f(1) nth_append nth_butlast)
  qed
  ultimately show ?thesis using f(2) by (simp add: ar)
qed

lemma second_running_run:
  "exec [Execute full_bundle 1, Execute full_bundle 2, Start 0, Start 1,
         BackendReturn 0 backend_boom, Resume 1] (init disk) = Some second_running"
  "status_of second_running 0 = Sending (error_result (Exn ''ValueError'' ''boom''))"
  "status_of second_running 1 = Running"
proof -
  let ?t = "process_job_finish 0 backend_boom two_jobs"
  have a: "step (BackendReturn 0 backend_boom) two_jobs = Some ?t"
    using two_jobs_facts(1,2) by (simp add: status_of_def)
  have b: "fst (job_body backend_boom (job_params (tasks two_jobs ! 0)) two_jobs)
        = Inl (Exn ''ValueError'' ''boom'')"
    by (simp add: two_jobs_facts job_body_raises boom_raises)
  have c: "status_of ?t 0 = Sending (error_result (Exn ''ValueError'' ''boom''))"
    using step_BackendReturn(4) [OF a] b by (simp add: result_of_def)
  have d: "status_of ?t 1 = Granted" "length (tasks ?t) = 2"
    using BackendReturn_status(1) [OF a, of 1] step_BackendReturn(3) [OF a]
    by (simp_all add: two_jobs_facts)
  have e: "step (Resume 1) ?t = Some second_running"
    using d by (simp add: status_of_def second_running_def)
  have "exec [BackendReturn 0 backend_boom, Resume 1] two_jobs = Some second_running"
    by (simp only: exec.simps a e option.case)
  with two_jobs_run
  have "exec ([Execute full_bundle 1, Execute full_bundle 2, Start 0, Start 1]
          @ [BackendReturn 0 backend_boom, Resume 1]) (init disk) = Some second_running"
    by (simp only: exec_append option.case)
  then show "exec [Execute full_bundle 1, Execute full_bundle 2, Start 0, Start 1,
         BackendReturn 0 backend_boom, Resume 1] (init disk) = Some second_running"
    by (simp only: append.simps)
  show "status_of second_running 1 = Running" using step_Resume(5) [OF e] .
  have "tasks second_running ! 0 = tasks ?t ! 0" using step_Resume(4) [OF e, of 0] by simp
  with c show "status_of second_running 0 = Sending (error_result (Exn ''ValueError'' ''boom''))"
    by (simp add: status_of_def)
qed

theorem lock_granted_in_arrival_order_witness:
  "exec [Execute full_bundle 1, Execute full_bundle 2, Start 0, Start 1,
         BackendReturn 0 backend_boom, Resume 1] (init disk) = Some second_running
   \<and> gate_order [Execute full_bundle 1, Execute full_bundle 2, Start 0, Start 1,
         BackendReturn 0 backend_boom, Resume 1] = [0, 1]
   \<and> started (status_of second_running 1)
   \<and> past_block (status_of second_running 0)"
proof -
  let ?es = "[Execute full_bundle 1, Execute full_bundle 2, Start 0, Start 1,
         BackendReturn 0 backend_boom, Resume 1]"
  have o: "gate_order ?es = [0, 1]" by simp
  have a: "(0::nat) < 1" and b: "1 < length (gate_order ?es)" by simp_all
  have c: "started (status_of second_running (gate_order ?es ! 1))"
    using second_running_run(3) by (simp add: started_def)
  from lock_granted_in_arrival_order [OF second_running_run(1) a b c]
  have "past_block (status_of second_running 0)" by simp
  with second_running_run(1) o c show ?thesis by simp
qed

subsection \<open>One result and one message for each job\<close>

lemma matches_outcomeD:
  "matches_outcome r fr \<Longrightarrow>
     (\<exists>e. r = Some (Inl e)
         \<and> fr = [(''format'', PStr ''error''), (''error'', PStr (str_exn e))])
     \<or> (\<exists>final. r = Some (Inr (PStr final))
         \<and> fr = [(''format'', PStr ''filePath''), (''data'', PStr final),
                 (''filename'', PStr (basename final))])"
  by (auto simp: matches_outcome_def split: option.splits sum.splits pyval.splits)

lemma job_body_of_outcome:
  "fst (run_musetalk_inference env p s) = Inl e \<Longrightarrow>
     result_of (fst (job_body env p s))
       = [(''format'', PStr ''error''), (''error'', PStr (str_exn e))]"
  "fst (run_musetalk_inference env p s) = Inr v \<Longrightarrow>
     \<exists>final. v = PStr final
       \<and> result_of (fst (job_body env p s))
           = [(''format'', PStr ''filePath''), (''data'', PStr final),
              (''filename'', PStr (basename final))]"
proof -
  assume "fst (run_musetalk_inference env p s) = Inl e"
  from job_body_raises [OF this]
  show "result_of (fst (job_body env p s))
       = [(''format'', PStr ''error''), (''error'', PStr (str_exn e))]"
    by (simp add: result_of_def error_result_def)
next
  assume a: "fst (run_musetalk_inference env p s) = Inr v"
  obtain r s1 where b: "run_musetalk_inference env p s = (r, s1)"
    by (cases "run_musetalk_inference env p s")
  with a have c: "run_musetalk_inference env p s = (Inr v, s1)" by simp
  from run_musetalk_inference_ok [OF c] obtain final where f: "v = PStr final" by blast
  with c have "fst (job_body env p s)
      = Inr [(''format'', PStr ''filePath''), (''data'', PStr final),
             (''filename'', PStr (basename final))]"
    by (simp add: job_body_def py_basename_def)
  with f show "\<exists>final. v = PStr final
       \<and> result_of (fst (job_body env p s))
           = [(''format'', PStr ''filePath''), (''data'', PStr final),
              (''filename'', PStr (basename final))]"
    by (simp add: result_of_def)
qed

lemma job_body_matches:
  "matches_outcome (Some (fst (run_musetalk_inference env p s)))
     (result_of (fst (job_body env p s)))"
proof (cases "fst (run_musetalk_inference env p s)")
  case (Inl e)
  with job_body_of_outcome(1) [OF Inl] show ?thesis by (simp add: matches_outcome_def)
next
  case (Inr v)
  with job_body_of_outcome(2) [OF Inr] show ?thesis by (auto simp: matches_outcome_def)
qed


lemma delivery_invI:
  assumes "length (sent_by s) = length (sent s)"
    and "distinct (sent_by s)"
    and "\<And>k. k < length (sent s) \<Longrightarrow>
           sent_by s ! k < length (tasks s)
           \<and> status_of s (sent_by s ! k) = Finished (snd (sent s ! k))"
    and "\<And>i fr. i < length (tasks s) \<Longrightarrow> status_of s i = Sending fr \<or> status_of s i = Finished fr
           \<Longrightarrow> matches_outcome (outcome (tasks s ! i)) fr"
  shows "delivery_inv s"
  using assms unfolding delivery_inv_def by blast

lemma delivery_invD:
  assumes "delivery_inv s"
  shows "length (sent_by s) = length (sent s)"
    and "distinct (sent_by s)"
    and "k < length (sent s) \<Longrightarrow>
           sent_by s ! k < length (tasks s)
           \<and> status_of s (sent_by s ! k) = Finished (snd (sent s ! k))"
    and "i < length (tasks s) \<Longrightarrow> status_of s i = Sending fr \<or> status_of s i = Finished fr
           \<Longrightarrow> matches_outcome (outcome (tasks s ! i)) fr"
  using assms unfolding delivery_inv_def by blast+

text \<open>An event that leaves the messages alone and changes no task that is past its block.\<close>

lemma delivery_inv_quiet:
  assumes "delivery_inv s"
    and "sent s' = sent s" and "sent_by s' = sent_by s"
    and "length (tasks s) \<le> length (tasks s')"
    and "\<And>j. j < length (tasks s) \<Longrightarrow> past_block (status_of s j) \<Longrightarrow> tasks s' ! j = tasks s ! j"
    and "\<And>j fr. j < length (tasks s') \<Longrightarrow>
           status_of s' j = Sending fr \<or> status_of s' j = Finished fr \<Longrightarrow>
           (j < length (tasks s) \<and> tasks s' ! j = tasks s ! j)
           \<or> matches_outcome (outcome (tasks s' ! j)) fr"
  shows "delivery_inv s'"
proof (rule delivery_invI)
  note d = delivery_invD [OF assms(1)]
  show "length (sent_by s') = length (sent s')" using d(1) by (simp add: assms(2,3))
  show "distinct (sent_by s')" using d(2) by (simp add: assms(3))
  show "sent_by s' ! k < length (tasks s')
          \<and> status_of s' (sent_by s' ! k) = Finished (snd (sent s' ! k))"
    if "k < length (sent s')" for k
  proof -
    from that have k: "k < length (sent s)" by (simp add: assms(2))
    from d(3) [OF k] have a: "sent_by s ! k < length (tasks s)"
      "status_of s (sent_by s ! k) = Finished (snd (sent s ! k))" by simp_all
    from a have "tasks s' ! (sent_by s ! k) = tasks s ! (sent_by s ! k)"
      by (intro assms(5)) simp_all
    with a assms(4) show ?thesis by (simp add: assms(2,3) status_of_def)
  qed
  show "matches_outcome (outcome (tasks s' ! i)) fr"
    if "i < length (tasks s')" "status_of s' i = Sending fr \<or> status_of s' i = Finished fr"
    for i fr
  proof -
    from assms(6) [OF that] show ?thesis
    proof
      assume a: "i < length (tasks s) \<and> tasks s' ! i = tasks s ! i"
      with that(2) have "status_of s i = Sending fr \<or> status_of s i = Finished fr"
        by (simp add: status_of_def)
      from d(4) [OF _ this] a show ?thesis by simp
    qed
  qed
qed


lemma delivery_inv_Execute:
  assumes "delivery_inv s" and "step (Execute p r) s = Some s'"
  shows "delivery_inv s'"
proof (rule delivery_inv_quiet [OF assms(1)])
  note e = step_Execute [OF assms(2)]
  show "sent s' = sent s" "sent_by s' = sent_by s" "length (tasks s) \<le> length (tasks s')"
    by (simp_all add: e)
  show "tasks s' ! j = tasks s ! j" if "j < length (tasks s)" for j
    using that by (rule e(2))
  show "(j < length (tasks s) \<and> tasks s' ! j = tasks s ! j)
           \<or> matches_outcome (outcome (tasks s' ! j)) fr"
    if "j < length (tasks s')" "status_of s' j = Sending fr \<or> status_of s' j = Finished fr"
    for j fr
  proof (cases "j < length (tasks s)")
    case True
    with e(2) show ?thesis by simp
  next
    case False
    with that(1) e(1) have "j = length (tasks s)" by simp
    with that(2) e(3) show ?thesis by simp
  qed
qed

lemma delivery_inv_Start:
  assumes "delivery_inv s" and "step (Start i) s = Some s'"
  shows "delivery_inv s'"
proof (rule delivery_inv_quiet [OF assms(1)])
  note e = step_Start [OF assms(2)]
  show "sent s' = sent s" "sent_by s' = sent_by s" "length (tasks s) \<le> length (tasks s')"
    by (simp_all add: e)
  show "tasks s' ! j = tasks s ! j" if "past_block (status_of s j)" for j
  proof -
    from that e(2) have "j \<noteq> i" by auto
    then show ?thesis by (rule e(4))
  qed
  show "(j < length (tasks s) \<and> tasks s' ! j = tasks s ! j)
           \<or> matches_outcome (outcome (tasks s' ! j)) fr"
    if "j < length (tasks s')" "status_of s' j = Sending fr \<or> status_of s' j = Finished fr"
    for j fr
  proof -
    from that(2) e(5) have "j \<noteq> i" by (auto split: if_splits)
    with that(1) e(3) e(4) show ?thesis by simp
  qed
qed

lemma delivery_inv_Resume:
  assumes "delivery_inv s" and "step (Resume i) s = Some s'"
  shows "delivery_inv s'"
proof (rule delivery_inv_quiet [OF assms(1)])
  note e = step_Resume [OF assms(2)]
  show "sent s' = sent s" "sent_by s' = sent_by s" "length (tasks s) \<le> length (tasks s')"
    by (simp_all add: e)
  show "tasks s' ! j = tasks s ! j" if "past_block (status_of s j)" for j
  proof -
    from that e(2) have "j \<noteq> i" by auto
    then show ?thesis by (rule e(4))
  qed
  show "(j < length (tasks s) \<and> tasks s' ! j = tasks s ! j)
           \<or> matches_outcome (outcome (tasks s' ! j)) fr"
    if "j < length (tasks s')" "status_of s' j = Sending fr \<or> status_of s' j = Finished fr"
    for j fr
  proof -
    from that(2) e(5) have "j \<noteq> i" by auto
    with that(1) e(3) e(4) show ?thesis by simp
  qed
qed

lemma delivery_inv_Ws:
  assumes "delivery_inv s" and "step e s = Some s'"
    and "e = WsOpen jid \<or> e = WsPeerClose w \<or> e = WsDisconnect w"
  shows "delivery_inv s'"
  using assms(1) step_Ws(1,4,5) [OF assms(2,3)] by (simp add: delivery_inv_def status_of_def)

lemma delivery_inv_BackendReturn:
  assumes "gate_inv s" and "delivery_inv s" and "step (BackendReturn i env) s = Some s'"
  shows "delivery_inv s'"
proof (rule delivery_inv_quiet [OF assms(2)])
  note e = step_BackendReturn [OF assms(3)]
  note g = gate_invD [OF assms(1)]
  show "sent s' = sent s" "sent_by s' = sent_by s" "length (tasks s) \<le> length (tasks s')"
    by (simp_all add: e)
  have same: "tasks s' ! j = tasks s ! j"
    if "j < length (tasks s)" "j \<noteq> i" "status_of s j \<noteq> Waiting" for j
  proof (cases "waiters (processing_lock s)")
    case Nil
    with e(5) [OF that(2,1)] show ?thesis by simp
  next
    case (Cons w ws)
    with g(5) [of w] have "status_of s w = Waiting" by simp
    with that(3) have "j \<noteq> w" by auto
    with e(5) [OF that(2,1)] Cons show ?thesis by simp
  qed
  show "tasks s' ! j = tasks s ! j" if "j < length (tasks s)" "past_block (status_of s j)" for j
  proof -
    from that(2) e(2) have "j \<noteq> i" by auto
    moreover from that(2) have "status_of s j \<noteq> Waiting" by auto
    ultimately show ?thesis using that(1) same by blast
  qed
  show "(j < length (tasks s) \<and> tasks s' ! j = tasks s ! j)
           \<or> matches_outcome (outcome (tasks s' ! j)) fr"
    if "j < length (tasks s')" "status_of s' j = Sending fr \<or> status_of s' j = Finished fr"
    for j fr
  proof (cases "j = i")
    case True
    with that(2) e(4) job_body_matches [of env "job_params (tasks s ! i)" s]
    show ?thesis by auto
  next
    case False
    from that(1) have j: "j < length (tasks s)" by (simp add: e(3))
    have "status_of s j \<noteq> Waiting"
    proof
      assume "status_of s j = Waiting"
      with BackendReturn_status(1) [OF assms(3) False j] that(2) show False
        by (auto split: list.splits if_splits)
    qed
    from same [OF j False this] j show ?thesis by simp
  qed
qed

lemma delivery_inv_Notify:
  assumes "delivery_inv s" and "step (Notify i tx) s = Some s'"
  shows "delivery_inv s'"
proof -
  note e = step_Notify [OF assms(2)]
  note d = delivery_invD [OF assms(1)]
  have n: "length (tasks s') = length (tasks s)" by (rule e(3))
  from e(2) obtain fr where fr: "status_of s i = Sending fr" "status_of s' i = Finished fr"
    and sn: "sent s' = sent s \<and> sent_by s' = sent_by s
               \<or> (\<exists>w. sent s' = sent s @ [(w, fr)] \<and> sent_by s' = sent_by s @ [i])"
    by blast
  have a: "status_of s' j = status_of s j" "outcome (tasks s' ! j) = outcome (tasks s ! j)"
    if "j \<noteq> i" for j
    using e(4) [OF that] by (simp_all add: status_of_def)
  have old: "sent_by s ! k < length (tasks s) \<and> sent_by s ! k \<noteq> i
               \<and> status_of s' (sent_by s ! k) = Finished (snd (sent s ! k))"
    if "k < length (sent s)" for k
  proof -
    from d(3) [OF that] fr(1) have "sent_by s ! k \<noteq> i" by auto
    with d(3) [OF that] a(1) [OF this] show ?thesis by simp
  qed
  have ni: "i \<notin> set (sent_by s)"
  proof
    assume "i \<in> set (sent_by s)"
    then obtain k where "k < length (sent_by s)" "sent_by s ! k = i"
      by (auto simp: in_set_conv_nth)
    with old [of k] d(1) show False by simp
  qed
  have c4: "matches_outcome (outcome (tasks s' ! j)) x"
    if "j < length (tasks s')" "status_of s' j = Sending x \<or> status_of s' j = Finished x"
    for j x
  proof (cases "j = i")
    case True
    with that(2) fr(2) have "x = fr" by simp
    with d(4) [OF e(1), of fr] fr(1) e(5) True show ?thesis by simp
  next
    case False
    with that a [OF False] d(4) [of j x] show ?thesis by (simp add: n)
  qed
  from sn show ?thesis
  proof
    assume q: "sent s' = sent s \<and> sent_by s' = sent_by s"
    show ?thesis
    proof (rule delivery_invI)
      show "length (sent_by s') = length (sent s')" using d(1) q by simp
      show "distinct (sent_by s')" using d(2) q by simp
      show "sent_by s' ! k < length (tasks s')
              \<and> status_of s' (sent_by s' ! k) = Finished (snd (sent s' ! k))"
        if "k < length (sent s')" for k
        using old [of k] that q by (simp add: n)
    qed (rule c4)
  next
    assume "\<exists>w. sent s' = sent s @ [(w, fr)] \<and> sent_by s' = sent_by s @ [i]"
    then obtain w where q: "sent s' = sent s @ [(w, fr)]" "sent_by s' = sent_by s @ [i]"
      by blast
    show ?thesis
    proof (rule delivery_invI)
      show "length (sent_by s') = length (sent s')" using d(1) q by simp
      show "distinct (sent_by s')" using d(2) ni q by simp
      show "sent_by s' ! k < length (tasks s')
              \<and> status_of s' (sent_by s' ! k) = Finished (snd (sent s' ! k))"
        if "k < length (sent s')" for k
      proof (cases "k < length (sent s)")
        case True
        with old [OF True] d(1) q show ?thesis by (simp add: n nth_append)
      next
        case False
        with that q have "k = length (sent s)" by simp
        with d(1) q fr(2) e(1) show ?thesis by (simp add: n nth_append)
      qed
    qed (rule c4)
  qed
qed

lemma delivery_inv_step:
  assumes "gate_inv s" and "delivery_inv s" and "step e s = Some s'"
  shows "delivery_inv s'"
proof (cases e)
  case (Execute p r)
  with assms show ?thesis using delivery_inv_Execute by blast
next
  case (Start i)
  with assms show ?thesis using delivery_inv_Start by blast
next
  case (Resume i)
  with assms show ?thesis using delivery_inv_Resume by blast
next
  case (BackendReturn i env)
  with assms show ?thesis using delivery_inv_BackendReturn by blast
next
  case (Notify i tx)
  with assms show ?thesis using delivery_inv_Notify by blast
next
  case (WsOpen jid)
  with assms show ?thesis using delivery_inv_Ws by blast
next
  case (WsPeerClose w)
  with assms show ?thesis using delivery_inv_Ws by blast
next
  case (WsDisconnect w)
  with assms show ?thesis using delivery_inv_Ws by blast
qed

lemma delivery_inv_exec:
  assumes "exec es (init fs) = Some s"
  shows "delivery_inv s"
proof -
  have "gate_inv (init fs) \<and> delivery_inv (init fs)"
    by (simp add: gate_inv_init) (simp add: delivery_inv_def init_def)
  moreover have "gate_inv t' \<and> delivery_inv t'"
    if "gate_inv t \<and> delivery_inv t" "step e t = Some t'" for e t t'
    using that gate_inv_step delivery_inv_step by blast
  ultimately have "gate_inv s \<and> delivery_inv s"
    using assms by (rule exec_induct [where P = "\<lambda>s. gate_inv s \<and> delivery_inv s"])
  then show ?thesis by simp
qed


lemma status_of_simps [simp]:
  "i < length ts \<Longrightarrow> status_of (s\<lparr>tasks := ts\<rparr>) i = status (ts ! i)"
  by (simp add: status_of_def)

lemma send_to_live_channel:
  assumes "i < length (tasks s)" and "status_of s i = Sending fr"
    and "active_connections s (job_id (tasks s ! i)) = Some w"
    and "w < length (sockets s)" and "ws_open (sockets s ! w)"
  shows "\<exists>s'. step (Notify i None) s = Some s' \<and> sent s' = sent s @ [(w, fr)]
           \<and> sent_by s' = sent_by s @ [i] \<and> status_of s' i = Finished fr
           \<and> outcome (tasks s' ! i) = outcome (tasks s ! i)"
  using assms
  by (simp add: status_of_def process_job_notify_def send_result_def send_json_def
      set_status_def)


lemma backend_return_outcome:
  assumes "i < length (tasks s)" and "status_of s i = Running"
  shows "\<exists>s'. step (BackendReturn i env) s = Some s'
     \<and> outcome (tasks s' ! i)
         = Some (fst (run_musetalk_inference env (job_params (tasks s ! i)) s))
     \<and> (\<forall>e. fst (run_musetalk_inference env (job_params (tasks s ! i)) s) = Inl e
           \<longrightarrow> status_of s' i
                 = Sending [(''format'', PStr ''error''), (''error'', PStr (str_exn e))])
     \<and> (\<forall>v. fst (run_musetalk_inference env (job_params (tasks s ! i)) s) = Inr v
           \<longrightarrow> (\<exists>final. v = PStr final
                 \<and> status_of s' i
                     = Sending [(''format'', PStr ''filePath''), (''data'', PStr final),
                                (''filename'', PStr (basename final))]))"
proof -
  have a: "step (BackendReturn i env) s = Some (process_job_finish i env s)"
    using assms by (simp add: status_of_def)
  note e = step_BackendReturn(4) [OF a]
  let ?p = "job_params (tasks s ! i)"
  have "status_of (process_job_finish i env s) i
          = Sending [(''format'', PStr ''error''), (''error'', PStr (str_exn x))]"
    if "fst (run_musetalk_inference env ?p s) = Inl x" for x
    using e job_body_of_outcome(1) [OF that] by simp
  moreover have "\<exists>final. v = PStr final
                 \<and> status_of (process_job_finish i env s) i
                     = Sending [(''format'', PStr ''filePath''), (''data'', PStr final),
                                (''filename'', PStr (basename final))]"
    if "fst (run_musetalk_inference env ?p s) = Inr v" for v
    using e job_body_of_outcome(2) [OF that] by auto
  ultimately show ?thesis using a e by blast
qed

text \<open>
  C8. In every state that a run reaches:
  \<^item> each message that went out was sent by one task, which has returned, and no task
    sent two;
  \<^item> each message matches what the backend call of its sender did: it is
    \<^verbatim>\<open>{"format": "error", "error": str(e)}\<close> if the call raised \<open>e\<close>, and
    \<^verbatim>\<open>{"format": "filePath", "data": final, "filename": basename(final)}\<close> if the call
    returned \<open>final\<close>, that is, if the backend answered and the artifact was moved;
  \<^item> when the backend call of a running task comes back, the recorded outcome is what
    \<^verbatim>\<open>run_musetalk_inference\<close> returned or raised there, and the payload that the task
    will send is the error payload in the one case and the file payload in the other;
  \<^item> a task that stands before its send holds the payload that matches its recorded
    outcome, and if a socket is registered under the task's handle and is open, the send
    with a working transport puts exactly that payload on that socket, once, and the
    task returns.
\<close>

theorem one_result_one_message:
  assumes "exec es (init fs) = Some s"
  shows "length (sent_by s) = length (sent s) \<and> distinct (sent_by s)
     \<and> (\<forall>k < length (sent s).
           sent_by s ! k < length (tasks s)
           \<and> status_of s (sent_by s ! k) = Finished (snd (sent s ! k))
           \<and> ((\<exists>e. outcome (tasks s ! (sent_by s ! k)) = Some (Inl e)
                  \<and> snd (sent s ! k)
                      = [(''format'', PStr ''error''), (''error'', PStr (str_exn e))])
               \<or> (\<exists>final. outcome (tasks s ! (sent_by s ! k)) = Some (Inr (PStr final))
                  \<and> snd (sent s ! k)
                      = [(''format'', PStr ''filePath''), (''data'', PStr final),
                         (''filename'', PStr (basename final))])))
     \<and> (\<forall>i < length (tasks s). \<forall>env.
           status_of s i = Running
           \<longrightarrow> (\<exists>s'. step (BackendReturn i env) s = Some s'
                  \<and> outcome (tasks s' ! i)
                      = Some (fst (run_musetalk_inference env (job_params (tasks s ! i)) s))
                  \<and> (\<forall>e. fst (run_musetalk_inference env (job_params (tasks s ! i)) s) = Inl e
                        \<longrightarrow> status_of s' i
                              = Sending [(''format'', PStr ''error''),
                                         (''error'', PStr (str_exn e))])
                  \<and> (\<forall>v. fst (run_musetalk_inference env (job_params (tasks s ! i)) s) = Inr v
                        \<longrightarrow> (\<exists>final. v = PStr final
                              \<and> status_of s' i
                                  = Sending [(''format'', PStr ''filePath''),
                                             (''data'', PStr final),
                                             (''filename'', PStr (basename final))]))))
     \<and> (\<forall>i < length (tasks s). \<forall>fr w.
           status_of s i = Sending fr
           \<longrightarrow> active_connections s (job_id (tasks s ! i)) = Some w
           \<longrightarrow> w < length (sockets s) \<longrightarrow> ws_open (sockets s ! w)
           \<longrightarrow> ((\<exists>e. outcome (tasks s ! i) = Some (Inl e)
                    \<and> fr = [(''format'', PStr ''error''), (''error'', PStr (str_exn e))])
                 \<or> (\<exists>final. outcome (tasks s ! i) = Some (Inr (PStr final))
                    \<and> fr = [(''format'', PStr ''filePath''), (''data'', PStr final),
                            (''filename'', PStr (basename final))]))
               \<and> (\<exists>s'. step (Notify i None) s = Some s'
                     \<and> sent s' = sent s @ [(w, fr)] \<and> sent_by s' = sent_by s @ [i]
                     \<and> status_of s' i = Finished fr
                     \<and> outcome (tasks s' ! i) = outcome (tasks s ! i)))"
proof -
  note d = delivery_invD [OF delivery_inv_exec [OF assms]]
  have m: "sent_by s ! k < length (tasks s)
           \<and> status_of s (sent_by s ! k) = Finished (snd (sent s ! k))
           \<and> ((\<exists>e. outcome (tasks s ! (sent_by s ! k)) = Some (Inl e)
                  \<and> snd (sent s ! k)
                      = [(''format'', PStr ''error''), (''error'', PStr (str_exn e))])
               \<or> (\<exists>final. outcome (tasks s ! (sent_by s ! k)) = Some (Inr (PStr final))
                  \<and> snd (sent s ! k)
                      = [(''format'', PStr ''filePath''), (''data'', PStr final),
                         (''filename'', PStr (basename final))]))"
    if "k < length (sent s)" for k
  proof -
    from d(3) [OF that] have a: "sent_by s ! k < length (tasks s)"
      "status_of s (sent_by s ! k) = Finished (snd (sent s ! k))" by simp_all
    from d(4) [OF a(1), of "snd (sent s ! k)"] a(2)
    have "matches_outcome (outcome (tasks s ! (sent_by s ! k))) (snd (sent s ! k))" by simp
    from matches_outcomeD [OF this] a show ?thesis by blast
  qed
  have b: "\<exists>s'. step (BackendReturn i env) s = Some s'
                  \<and> outcome (tasks s' ! i)
                      = Some (fst (run_musetalk_inference env (job_params (tasks s ! i)) s))
                  \<and> (\<forall>e. fst (run_musetalk_inference env (job_params (tasks s ! i)) s) = Inl e
                        \<longrightarrow> status_of s' i
                              = Sending [(''format'', PStr ''error''),
                                         (''error'', PStr (str_exn e))])
                  \<and> (\<forall>v. fst (run_musetalk_inference env (job_params (tasks s ! i)) s) = Inr v
                        \<longrightarrow> (\<exists>final. v = PStr final
                              \<and> status_of s' i
                                  = Sending [(''format'', PStr ''filePath''),
                                             (''data'', PStr final),
                                             (''filename'', PStr (basename final))]))"
    if "i < length (tasks s)" "status_of s i = Running" for i env
    using that by (rule backend_return_outcome)
  have n: "((\<exists>e. outcome (tasks s ! i) = Some (Inl e)
                    \<and> fr = [(''format'', PStr ''error''), (''error'', PStr (str_exn e))])
                 \<or> (\<exists>final. outcome (tasks s ! i) = Some (Inr (PStr final))
                    \<and> fr = [(''format'', PStr ''filePath''), (''data'', PStr final),
                            (''filename'', PStr (basename final))]))
               \<and> (\<exists>s'. step (Notify i None) s = Some s'
                     \<and> sent s' = sent s @ [(w, fr)] \<and> sent_by s' = sent_by s @ [i]
                     \<and> status_of s' i = Finished fr
                     \<and> outcome (tasks s' ! i) = outcome (tasks s ! i))"
    if "i < length (tasks s)" "status_of s i = Sending fr"
      "active_connections s (job_id (tasks s ! i)) = Some w"
      "w < length (sockets s)" "ws_open (sockets s ! w)" for i fr w
  proof -
    from d(4) [OF that(1), of fr] that(2)
    have "matches_outcome (outcome (tasks s ! i)) fr" by simp
    from matches_outcomeD [OF this] send_to_live_channel [OF that] show ?thesis by blast
  qed
  from d(1,2) m b n show ?thesis by blast
qed


lemma ok_body:
  "files s ''/tmp/gradio/out.mp4'' = Some c \<Longrightarrow>
     fst (job_body backend_ok full_bundle s)
       = Inr [(''format'', PStr ''filePath''), (''data'', PStr ''/out/final.mp4''),
              (''filename'', PStr ''final.mp4'')]"
  by (simp add: job_body_def run_musetalk_inference_def inference_body_def backend_ok_def
      full_bundle_def predict_kwargs_def and_then_def getitem_def temp_path_def first_item_def
      dict_get_def relocate_def os_rename_def py_basename_def basename_def)

lemma ok_outcome:
  "files s ''/tmp/gradio/out.mp4'' = Some c \<Longrightarrow>
     fst (run_musetalk_inference backend_ok full_bundle s) = Inr (PStr ''/out/final.mp4'')"
  by (simp add: run_musetalk_inference_def inference_body_def backend_ok_def
      full_bundle_def predict_kwargs_def and_then_def getitem_def temp_path_def first_item_def
      dict_get_def relocate_def os_rename_def)

lemma process_job_finish_frame:
  "active_connections (process_job_finish i env s) = active_connections s"
  "sockets (process_job_finish i env s) = sockets s"
  "map job_id (tasks (process_job_finish i env s)) = map job_id (tasks s)"
proof -
  obtain r s1 where b: "job_body env (job_params (tasks s ! i)) s = (r, s1)"
    by (cases "job_body env (job_params (tasks s ! i)) s")
  note fr = job_body_frame [OF b]
  have c: "map job_id (tasks (before_send i x y z)) = map job_id (tasks z)" for x y z
    by (cases "i < length (tasks z)")
       (simp_all add: before_send_def Let_def map_update list_update_same_conv
          list_update_beyond)
  show "active_connections (process_job_finish i env s) = active_connections s"
    "sockets (process_job_finish i env s) = sockets s"
    using b fr by (simp_all add: process_job_finish_def split: sum.splits)
  show "map job_id (tasks (process_job_finish i env s)) = map job_id (tasks s)"
    using b fr by (simp add: process_job_finish_def c job_ids_unlock split: sum.splits)
qed

lemma listening_running_facts:
  "exec [Execute full_bundle 1, WsOpen (str_uuid (uuid4 1)), Start 0] (init disk)
     = Some listening_running"
  "tasks listening_running
     = [\<lparr>job_id = str_uuid (uuid4 1), job_params = full_bundle,
         status = Running, outcome = None\<rparr>]"
  "files listening_running ''/tmp/gradio/out.mp4'' = Some 7"
  "active_connections listening_running (str_uuid (uuid4 1)) = Some 0"
  "sockets listening_running
     = [\<lparr>ws_job_id = str_uuid (uuid4 1), ws_open = True, ws_listening = True\<rparr>]"
  "sent listening_running = []"
  "sent_by listening_running = []"
  by (simp_all add: listening_running_def process_job_begin_def acquire_def enter_def
      set_status_def websocket_endpoint_def connect_def execute_workflow_def Let_def init_def
      disk_def)

lemma finished_job_facts:
  "exec [Execute full_bundle 1, WsOpen (str_uuid (uuid4 1)), Start 0,
         BackendReturn 0 env] (init disk) = Some (process_job_finish 0 env listening_running)"
  "length (tasks (process_job_finish 0 env listening_running)) = 1"
  "status_of (process_job_finish 0 env listening_running) 0
     = Sending (result_of (fst (job_body env full_bundle listening_running)))"
  "outcome (tasks (process_job_finish 0 env listening_running) ! 0)
     = Some (fst (run_musetalk_inference env full_bundle listening_running))"
  "active_connections (process_job_finish 0 env listening_running)
     (job_id (tasks (process_job_finish 0 env listening_running) ! 0)) = Some 0"
  "length (sockets (process_job_finish 0 env listening_running)) = 1"
  "ws_open (sockets (process_job_finish 0 env listening_running) ! 0)"
  "sent (process_job_finish 0 env listening_running) = []"
  "sent_by (process_job_finish 0 env listening_running) = []"
proof -
  note t = listening_running_facts
  let ?f = "process_job_finish 0 env listening_running"
  have a: "step (BackendReturn 0 env) listening_running = Some ?f"
    by (simp add: t(2))
  from t(1) a have "exec ([Execute full_bundle 1, WsOpen (str_uuid (uuid4 1)), Start 0]
                 @ [BackendReturn 0 env]) (init disk) = Some ?f"
    by (simp only: exec_append option.case exec.simps)
  then show "exec [Execute full_bundle 1, WsOpen (str_uuid (uuid4 1)), Start 0,
         BackendReturn 0 env] (init disk) = Some ?f"
    by (simp only: append.simps)
  note e = step_BackendReturn [OF a]
  have p: "job_params (tasks listening_running ! 0) = full_bundle" by (simp add: t(2))
  show l: "length (tasks ?f) = 1" using e(3) by (simp add: t(2))
  show "status_of ?f 0 = Sending (result_of (fst (job_body env full_bundle listening_running)))"
    using e(4) by (simp add: p)
  show "outcome (tasks ?f ! 0)
     = Some (fst (run_musetalk_inference env full_bundle listening_running))"
    using e(4) by (simp add: p)
  note q = process_job_finish_frame [of 0 env listening_running]
  have "map job_id (tasks ?f) ! 0 = str_uuid (uuid4 1)"
    unfolding q(3) by (simp add: t(2))
  with l have j: "job_id (tasks ?f ! 0) = str_uuid (uuid4 1)" by simp
  show "active_connections ?f (job_id (tasks ?f ! 0)) = Some 0"
    unfolding j q(1) by (rule t(4))
  show "length (sockets ?f) = 1" "ws_open (sockets ?f ! 0)"
    unfolding q(2) by (simp_all add: t(5))
  show "sent ?f = []" using e(8) by (simp add: t(6))
  show "sent_by ?f = []" using e(9) by (simp add: t(7))
qed

theorem one_result_one_message_witness:
  "exec [Execute full_bundle 1, WsOpen (str_uuid (uuid4 1)), Start 0,
         BackendReturn 0 backend_ok] (init disk) = Some ready_to_send
   \<and> outcome (tasks ready_to_send ! 0) = Some (Inr (PStr ''/out/final.mp4''))
   \<and> status_of ready_to_send 0
        = Sending [(''format'', PStr ''filePath''), (''data'', PStr ''/out/final.mp4''),
                   (''filename'', PStr ''final.mp4'')]
   \<and> (\<exists>s'. step (Notify 0 None) ready_to_send = Some s'
         \<and> sent s' = [(0, [(''format'', PStr ''filePath''), (''data'', PStr ''/out/final.mp4''),
                            (''filename'', PStr ''final.mp4'')])]
         \<and> status_of s' 0
              = Finished [(''format'', PStr ''filePath''), (''data'', PStr ''/out/final.mp4''),
                          (''filename'', PStr ''final.mp4'')])
   \<and> exec [Execute full_bundle 1, WsOpen (str_uuid (uuid4 1)), Start 0,
         BackendReturn 0 backend_boom] (init disk) = Some failed_ready_to_send
   \<and> outcome (tasks failed_ready_to_send ! 0) = Some (Inl (Exn ''ValueError'' ''boom''))
   \<and> (\<exists>s'. exec [Execute full_bundle 1, WsOpen (str_uuid (uuid4 1)), Start 0,
                  BackendReturn 0 backend_boom, Notify 0 None] (init disk) = Some s'
         \<and> sent_by s' = [0]
         \<and> outcome (tasks s' ! 0) = Some (Inl (Exn ''ValueError'' ''boom''))
         \<and> sent s' = [(0, [(''format'', PStr ''error''), (''error'', PStr ''boom'')])]
         \<and> status_of s' 0
              = Finished [(''format'', PStr ''error''), (''error'', PStr ''boom'')])"
proof -
  let ?ok = "[(''format'', PStr ''filePath''), (''data'', PStr ''/out/final.mp4''),
              (''filename'', PStr ''final.mp4'')]"
  let ?err = "[(''format'', PStr ''error''), (''error'', PStr ''boom'')]"
  note t = listening_running_facts
  note g = finished_job_facts [of backend_ok, folded ready_to_send_def]
  note b = finished_job_facts [of backend_boom, folded failed_ready_to_send_def]
  have go: "outcome (tasks ready_to_send ! 0) = Some (Inr (PStr ''/out/final.mp4''))"
    using g(4) ok_outcome [OF t(3)] by simp
  have gs: "status_of ready_to_send 0 = Sending ?ok"
    using g(3) ok_body [OF t(3)] by (simp add: result_of_def)
  have bo: "outcome (tasks failed_ready_to_send ! 0) = Some (Inl (Exn ''ValueError'' ''boom''))"
    using b(4) boom_raises [of listening_running] by simp
  have bs: "status_of failed_ready_to_send 0 = Sending ?err"
    using b(3) job_body_raises [OF boom_raises [of listening_running]]
    by (simp add: result_of_def error_result_def)
  have i1: "0 < length (tasks ready_to_send)" "0 < length (sockets ready_to_send)"
    using g(2,6) by simp_all
  have i2: "0 < length (tasks failed_ready_to_send)" "0 < length (sockets failed_ready_to_send)"
    using b(2,6) by simp_all
  from one_result_one_message [OF g(1)] i1 gs g(5) g(7)
  have "\<exists>s'. step (Notify 0 None) ready_to_send = Some s'
         \<and> sent s' = sent ready_to_send @ [(0, ?ok)]
         \<and> status_of s' 0 = Finished ?ok"
    by blast
  then have ok: "\<exists>s'. step (Notify 0 None) ready_to_send = Some s'
         \<and> sent s' = [(0, ?ok)] \<and> status_of s' 0 = Finished ?ok"
    by (simp add: g(8))
  from one_result_one_message [OF b(1)] i2 bs b(5) b(7)
  have "\<exists>s'. step (Notify 0 None) failed_ready_to_send = Some s'
         \<and> sent s' = sent failed_ready_to_send @ [(0, ?err)]
         \<and> sent_by s' = sent_by failed_ready_to_send @ [0]
         \<and> status_of s' 0 = Finished ?err
         \<and> outcome (tasks s' ! 0) = outcome (tasks failed_ready_to_send ! 0)"
    by blast
  then obtain s' where s': "step (Notify 0 None) failed_ready_to_send = Some s'"
    "sent s' = [(0, ?err)]" "sent_by s' = [0]" "status_of s' 0 = Finished ?err"
    "outcome (tasks s' ! 0) = Some (Inl (Exn ''ValueError'' ''boom''))"
    by (auto simp: b(8) b(9) bo)
  from b(1) s'(1)
  have "exec ([Execute full_bundle 1, WsOpen (str_uuid (uuid4 1)), Start 0,
                  BackendReturn 0 backend_boom] @ [Notify 0 None]) (init disk) = Some s'"
    by (simp only: exec_append option.case exec.simps)
  then have r: "exec [Execute full_bundle 1, WsOpen (str_uuid (uuid4 1)), Start 0,
                  BackendReturn 0 backend_boom, Notify 0 None] (init disk) = Some s'"
    by (simp only: append.simps)
  from one_result_one_message [OF r]
  have "\<forall>k < length (sent s').
           (\<exists>e. outcome (tasks s' ! (sent_by s' ! k)) = Some (Inl e)
                  \<and> snd (sent s' ! k)
                      = [(''format'', PStr ''error''), (''error'', PStr (str_exn e))])
               \<or> (\<exists>final. outcome (tasks s' ! (sent_by s' ! k)) = Some (Inr (PStr final))
                  \<and> snd (sent s' ! k)
                      = [(''format'', PStr ''filePath''), (''data'', PStr final),
                         (''filename'', PStr (basename final))])"
    by blast
  then have "snd (sent s' ! 0) = ?err \<and> length (sent s') = 1" using s'(2,3,5) by simp
  with r s' have bad: "\<exists>s'. exec [Execute full_bundle 1, WsOpen (str_uuid (uuid4 1)), Start 0,
                  BackendReturn 0 backend_boom, Notify 0 None] (init disk) = Some s'
         \<and> sent_by s' = [0]
         \<and> outcome (tasks s' ! 0) = Some (Inl (Exn ''ValueError'' ''boom''))
         \<and> sent s' = [(0, ?err)]
         \<and> status_of s' 0 = Finished ?err"
    by blast
  from g(1) go gs ok b(1) bo bad show ?thesis by blast
qed

end
